theory Spec2Isabelle
  imports Main "HOL-Library.Multiset" "HOL-Library.Sublist"
begin


section \<open>Strings and the two regular expressions of \<open>main.go\<close>\<close>

text \<open>
  A Go \<open>string\<close> is a sequence of bytes; it is modelled as \<open>string\<close> (a list of 8-bit
  \<open>char\<close>s). The packages \<open>regexp\<close> and \<open>strings\<close> read a string rune by rune, a
  rune beyond ASCII being a run of bytes above 127 (its UTF-8 encoding); the model works
  on the bytes and names the runes beyond ASCII that matter by their encodings.
\<close>

definition lowerChars :: string where
  "lowerChars = ''abcdefghijklmnopqrstuvwxyz''"

definition upperChars :: string where
  "upperChars = ''ABCDEFGHIJKLMNOPQRSTUVWXYZ''"

definition digitChars :: string where
  "digitChars = ''0123456789''"

text \<open>The character class \<open>[a-zA-Z0-9.-]\<close> of \<open>cleanDomainLine\<close>.\<close>

definition domainChar :: "char \<Rightarrow> bool" where
  "domainChar c = (c \<in> set (lowerChars @ upperChars @ digitChars @ ''.-''))"

text \<open>
  The classes of \<open>isValidDomain\<close>, read under the flag \<open>(?i)\<close>: \<open>[a-z]\<close>, \<open>[a-z0-9]\<close>
  and \<open>[a-z0-9-]\<close> accept both cases of a letter. These are their ASCII members; see
  below for the two other runes that case folding adds.
\<close>

definition alphaChar :: "char \<Rightarrow> bool" where
  "alphaChar c = (c \<in> set (lowerChars @ upperChars))"

definition alnumChar :: "char \<Rightarrow> bool" where
  "alnumChar c = (c \<in> set (lowerChars @ upperChars @ digitChars))"

definition alnumHyphenChar :: "char \<Rightarrow> bool" where
  "alnumHyphenChar c = (c \<in> set (lowerChars @ upperChars @ digitChars @ ''-''))"

definition dotChar :: "char \<Rightarrow> bool" where
  "dotChar c = (c = CHR ''.'')"

text \<open>
  \<open>strings.TrimSpace\<close> removes the leading and the trailing runes that are white space
  for \<open>unicode.IsSpace\<close>: the six ASCII ones (tab, line feed, vertical tab, form feed,
  carriage return, space) and U+0085, U+00A0, U+1680, U+2000 to U+200A, U+2028, U+2029,
  U+202F, U+205F and U+3000. On the bytes of a string these are the encodings below, at
  the start or at the end of the string.
\<close>

definition spaceRunes :: "string list" where
  "spaceRunes =
     [[CHR 0x09], [CHR 0x0A], [CHR 0x0B], [CHR 0x0C], [CHR 0x0D], [CHR 0x20],
      [CHR 0xC2, CHR 0x85], [CHR 0xC2, CHR 0xA0], [CHR 0xE1, CHR 0x9A, CHR 0x80],
      [CHR 0xE2, CHR 0x80, CHR 0x80], [CHR 0xE2, CHR 0x80, CHR 0x81],
      [CHR 0xE2, CHR 0x80, CHR 0x82], [CHR 0xE2, CHR 0x80, CHR 0x83],
      [CHR 0xE2, CHR 0x80, CHR 0x84], [CHR 0xE2, CHR 0x80, CHR 0x85],
      [CHR 0xE2, CHR 0x80, CHR 0x86], [CHR 0xE2, CHR 0x80, CHR 0x87],
      [CHR 0xE2, CHR 0x80, CHR 0x88], [CHR 0xE2, CHR 0x80, CHR 0x89],
      [CHR 0xE2, CHR 0x80, CHR 0x8A], [CHR 0xE2, CHR 0x80, CHR 0xA8],
      [CHR 0xE2, CHR 0x80, CHR 0xA9], [CHR 0xE2, CHR 0x80, CHR 0xAF],
      [CHR 0xE2, CHR 0x81, CHR 0x9F], [CHR 0xE3, CHR 0x80, CHR 0x80]]"

definition spaceAtStart :: "string \<Rightarrow> nat" where
  "spaceAtStart s =
     (case find (\<lambda>r. take (length r) s = r) spaceRunes of None \<Rightarrow> 0 | Some r \<Rightarrow> length r)"

definition spaceAtEnd :: "string \<Rightarrow> nat" where
  "spaceAtEnd s =
     (case find (\<lambda>r. length r \<le> length s \<and> drop (length s - length r) s = r) spaceRunes of
        None \<Rightarrow> 0 | Some r \<Rightarrow> length r)"

function trimLeft :: "string \<Rightarrow> string" where
  "trimLeft s = (if spaceAtStart s = 0 then s else trimLeft (drop (spaceAtStart s) s))"
  by pat_completeness auto
termination
proof (relation "measure length")
  show "wf (measure length)" by simp
next
  fix s :: string
  assume a: "spaceAtStart s \<noteq> 0"
  have "spaceAtStart [] = 0" by (simp add: spaceAtStart_def spaceRunes_def)
  with a have "s \<noteq> []" by auto
  with a show "(drop (spaceAtStart s) s, s) \<in> measure length" by simp
qed

function trimRight :: "string \<Rightarrow> string" where
  "trimRight s = (if spaceAtEnd s = 0 then s else trimRight (take (length s - spaceAtEnd s) s))"
  by pat_completeness auto
termination
proof (relation "measure length")
  show "wf (measure length)" by simp
next
  fix s :: string
  assume a: "spaceAtEnd s \<noteq> 0"
  have "spaceAtEnd [] = 0" by (simp add: spaceAtEnd_def spaceRunes_def)
  with a have "s \<noteq> []" by auto
  with a show "(take (length s - spaceAtEnd s) s, s) \<in> measure length" by simp
qed

declare trimLeft.simps [simp del]

declare trimRight.simps [simp del]

definition TrimSpace :: "string \<Rightarrow> string" where
  "TrimSpace s = trimRight (trimLeft s)"

subsection \<open>Regular expressions, matched by derivatives\<close>

datatype rexp =
    RNone
  | REps
  | RClass "char \<Rightarrow> bool"
  | RAlt rexp rexp
  | RSeq rexp rexp
  | RStar rexp

text \<open>The derived forms the pattern uses: \<open>r?\<close>, \<open>r+\<close>, \<open>r{0,n}\<close> and \<open>r{2,}\<close>.\<close>

definition ROpt :: "rexp \<Rightarrow> rexp" where
  "ROpt r = RAlt r REps"

definition RPlus :: "rexp \<Rightarrow> rexp" where
  "RPlus r = RSeq r (RStar r)"

fun RUpto :: "nat \<Rightarrow> rexp \<Rightarrow> rexp" where
  "RUpto 0 r = REps"
| "RUpto (Suc n) r = ROpt (RSeq r (RUpto n r))"

definition RAtLeast2 :: "rexp \<Rightarrow> rexp" where
  "RAtLeast2 r = RSeq r (RSeq r (RStar r))"

fun nullable :: "rexp \<Rightarrow> bool" where
  "nullable RNone = False"
| "nullable REps = True"
| "nullable (RClass p) = False"
| "nullable (RAlt r s) = (nullable r \<or> nullable s)"
| "nullable (RSeq r s) = (nullable r \<and> nullable s)"
| "nullable (RStar r) = True"

text \<open>Smart constructors keep the derivatives small.\<close>

fun seq :: "rexp \<Rightarrow> rexp \<Rightarrow> rexp" where
  "seq RNone s = RNone"
| "seq REps s = s"
| "seq r s = RSeq r s"

fun alt :: "rexp \<Rightarrow> rexp \<Rightarrow> rexp" where
  "alt RNone s = s"
| "alt r RNone = r"
| "alt r s = RAlt r s"

fun deriv :: "char \<Rightarrow> rexp \<Rightarrow> rexp" where
  "deriv c RNone = RNone"
| "deriv c REps = RNone"
| "deriv c (RClass p) = (if p c then REps else RNone)"
| "deriv c (RAlt r s) = alt (deriv c r) (deriv c s)"
| "deriv c (RSeq r s) =
     (if nullable r then alt (seq (deriv c r) s) (deriv c s) else seq (deriv c r) s)"
| "deriv c (RStar r) = seq (deriv c r) (RStar r)"

text \<open>
  \<open>regexp.MatchString\<close> with a pattern anchored by \<open>^\<close> and \<open>$\<close>: the whole string must
  belong to the language of the pattern (in Go, \<open>$\<close> without the flag \<open>m\<close> matches at the
  end of the text only).
\<close>

fun matches :: "rexp \<Rightarrow> string \<Rightarrow> bool" where
  "matches r [] = nullable r"
| "matches r (c # cs) = matches (deriv c r) cs"

subsection \<open>\<open>isValidDomain\<close> and \<open>cleanDomainLine\<close>\<close>

text \<open>
  Under \<open>(?i)\<close> the package \<open>regexp\<close> adds to a class every rune that folds to one of
  its members (\<open>unicode.SimpleFold\<close>). Beyond ASCII these are two: U+017F (long s,
  folding to \<open>s\<close>), encoded \<open>C5 BF\<close>, and U+212A (the Kelvin sign, folding to \<open>k\<close>),
  encoded \<open>E2 84 AA\<close>. Each counts as one rune of the class.
\<close>

fun bytes :: "string \<Rightarrow> rexp" where
  "bytes [] = REps"
| "bytes (c # cs) = RSeq (RClass (\<lambda>x. x = c)) (bytes cs)"

definition folded :: rexp where
  "folded = RAlt (bytes [CHR 0xC5, CHR 0xBF]) (bytes [CHR 0xE2, CHR 0x84, CHR 0xAA])"

definition alpha :: rexp where
  "alpha = RAlt (RClass alphaChar) folded"

definition alnum :: rexp where
  "alnum = RAlt (RClass alnumChar) folded"

definition alnumHyphen :: rexp where
  "alnumHyphen = RAlt (RClass alnumHyphenChar) folded"

text \<open>
  The pattern \<^verbatim>\<open>(?i)^([a-z0-9]([a-z0-9-]{0,61}[a-z0-9])?\.)+[a-z]{2,}$\<close>, piece by piece.
\<close>

definition labelRegex :: rexp where
  "labelRegex =
     RSeq alnum (RSeq (ROpt (RSeq (RUpto 61 alnumHyphen) alnum)) (RClass dotChar))"

definition domainRegex :: rexp where
  "domainRegex = RSeq (RPlus labelRegex) (RAtLeast2 alpha)"

definition isValidDomain :: "string \<Rightarrow> bool" where
  "isValidDomain domain = matches domainRegex domain"

definition cleanDomainLine :: "string \<Rightarrow> string" where
  "cleanDomainLine line = TrimSpace (filter domainChar line)"

subsection \<open>The language of a regular expression\<close>

definition conc :: "string set \<Rightarrow> string set \<Rightarrow> string set" where
  "conc A B = {u @ v | u v. u \<in> A \<and> v \<in> B}"

inductive_set star :: "string set \<Rightarrow> string set" for A :: "string set" where
  star_nil: "[] \<in> star A"
| star_step: "u \<in> A \<Longrightarrow> v \<in> star A \<Longrightarrow> u @ v \<in> star A"

fun lang :: "rexp \<Rightarrow> string set" where
  "lang RNone = {}"
| "lang REps = {[]}"
| "lang (RClass p) = {[c] | c. p c}"
| "lang (RAlt r s) = lang r \<union> lang s"
| "lang (RSeq r s) = conc (lang r) (lang s)"
| "lang (RStar r) = star (lang r)"

text \<open>
  The condition of the specification on a raw line: the part after its last dot (its final
  label) exists, is alphabetic and has at least two characters.
\<close>

definition finalLabel :: "string \<Rightarrow> string option" where
  "finalLabel x =
     (if CHR ''.'' \<in> set x then Some (rev (takeWhile (\<lambda>c. c \<noteq> CHR ''.'') (rev x))) else None)"

definition hasAlphaFinalLabel :: "string \<Rightarrow> bool" where
  "hasAlphaFinalLabel x =
     (case finalLabel x of None \<Rightarrow> False | Some l \<Rightarrow> 2 \<le> length l \<and> list_all alphaChar l)"

section \<open>Slices, log messages and the HTTP client\<close>

text \<open>
  A Go slice \<open>[]string\<close> is either \<open>nil\<close> or a (possibly empty) sequence of strings; the
  comparison \<open>urls != nil\<close> of \<open>main\<close> tells the two apart, so the model keeps them apart:
  \<open>None\<close> is the nil slice, \<open>Some xs\<close> a slice that is not nil. \<open>var urls []string\<close>
  declares a nil slice, \<open>append\<close> to any slice gives one that is not nil, \<open>len\<close> of the
  nil slice is 0 and \<open>range\<close> over it visits nothing.
\<close>

type_synonym slice = "string list option"

definition append_go :: "slice \<Rightarrow> string \<Rightarrow> slice" where
  "append_go s x = (case s of None \<Rightarrow> Some [x] | Some xs \<Rightarrow> Some (xs @ [x]))"

definition len_go :: "slice \<Rightarrow> nat" where
  "len_go s = (case s of None \<Rightarrow> 0 | Some xs \<Rightarrow> length xs)"

definition range_go :: "slice \<Rightarrow> string list" where
  "range_go s = (case s of None \<Rightarrow> [] | Some xs \<Rightarrow> xs)"

text \<open>The verbs \<open>%d\<close> of \<open>fmt.Sprintf\<close>.\<close>

fun showNat :: "nat \<Rightarrow> string" where
  "showNat n =
     (if n < 10 then [digitChars ! n] else showNat (n div 10) @ [digitChars ! (n mod 10)])"

declare showNat.simps [simp del]

definition showInt :: "int \<Rightarrow> string" where
  "showInt i = (if i < 0 then ''-'' @ showNat (nat (- i)) else showNat (nat i))"

text \<open>
  \<open>strings.Split\<close> with a separator of one character (a line feed in \<open>getWaybackURLs\<close>, a
  comma in \<open>main\<close>): the pieces between the separators, one more than there are separators.
\<close>

fun Split :: "string \<Rightarrow> char \<Rightarrow> string list" where
  "Split [] sep = [[]]"
| "Split (c # cs) sep =
     (if c = sep then [] # Split cs sep
      else (case Split cs sep of [] \<Rightarrow> [[c]] | x # xs \<Rightarrow> (c # x) # xs))"

definition retryAttempts :: nat where
  "retryAttempts = 3"

text \<open>The two delays, in seconds.\<close>

definition retryDelay :: nat where
  "retryDelay = 5"

definition requestDelay :: nat where
  "requestDelay = 20"

record Config =
  VirusTotalKeys :: "string list"
  AlienVaultKeys :: "string list"
  HudsonRockKeys :: "string list"

text \<open>
  The three response structures, as \<open>json.Unmarshal\<close> fills them. Of the elements of
  \<open>url_list\<close> and \<open>all_urls\<close> only the field \<open>url\<close> is declared, so each list is a list
  of strings.
\<close>

record VirusTotalResponse =
  UndetectedUrls :: "string list list"
  ResponseCode :: int

record AlienVaultResponse =
  URLList :: "string list"
  HasNext :: bool

record HudsonRockResponse =
  AllURLs :: "string list"

record logMessage =
  Type :: string
  Source :: string
  Message :: string

text \<open>A Go \<open>error\<close> is modelled by the text it prints.\<close>

type_synonym error = string

record Request =
  Method :: string
  URL :: string
  Header :: "(string \<times> string) list"

record Response =
  StatusCode :: int
  Body :: string

text \<open>
  What \<open>http.DefaultClient.Do\<close> and \<open>makeRequestWithRetry\<close> return, a pair
  \<open>(*http.Response, error)\<close>: with a nil error the response is there (\<open>Returned\<close>); with
  an error there may be a response beside it or not (\<open>Failed\<close>). The type leaves open
  which of the two \<open>Do\<close> returns for which answer of the server. (The documentation of
  \<open>net/http\<close> says that a status other than 2xx does not cause an error, and that a
  response beside an error occurs only when the redirect policy fails.)
\<close>

datatype result = Returned Response | Failed "Response option" error

text \<open>
  Everything outside the program that a querier depends on:
  \<^item> \<open>NewRequestErr url\<close>: the error of \<open>http.NewRequest\<close> for this URL, if it has one;
  \<^item> \<open>Do req k\<close>: what \<open>http.DefaultClient.Do\<close> returns for the request when the goroutine
    has made \<open>k\<close> calls of \<open>Do\<close> before (any sequence of answers can be given this way);
  \<^item> the three decodings of a response body by \<open>json.Unmarshal\<close>, whose error the program
    ignores.
\<close>

record world =
  NewRequestErr :: "string \<Rightarrow> error option"
  Do :: "Request \<Rightarrow> nat \<Rightarrow> result"
  UnmarshalVT :: "string \<Rightarrow> VirusTotalResponse"
  UnmarshalOTX :: "string \<Rightarrow> AlienVaultResponse"
  UnmarshalHR :: "string \<Rightarrow> HudsonRockResponse"

definition NewRequest :: "world \<Rightarrow> string \<Rightarrow> string \<Rightarrow> error + Request" where
  "NewRequest w method url =
     (case NewRequestErr w url of
        Some err \<Rightarrow> Inl err
      | None \<Rightarrow> Inr \<lparr>Method = method, URL = url, Header = []\<rparr>)"

definition HeaderAdd :: "string \<Rightarrow> string \<Rightarrow> Request \<Rightarrow> Request" where
  "HeaderAdd k v req = req\<lparr>Header := Header req @ [(k, v)]\<rparr>"

text \<open>
  What one querier goroutine has done: the number of its calls of \<open>Do\<close>, the durations of
  its calls of \<open>time.Sleep\<close>, the messages it has sent on \<open>logChan\<close> and on the results
  channel \<open>ch\<close>, in order, and the number of its calls of \<open>wg.Done\<close>.
\<close>

record goroutine =
  doCalls :: nat
  slept :: "nat list"
  logChan :: "logMessage list"
  ch :: "slice list"
  wgDone :: nat

definition idle :: goroutine where
  "idle = \<lparr>doCalls = 0, slept = [], logChan = [], ch = [], wgDone = 0\<rparr>"

definition sendLog :: "bool \<Rightarrow> logMessage \<Rightarrow> goroutine \<Rightarrow> goroutine" where
  \<comment> \<open>\<open>if !silent { logChan <- msg }\<close>\<close>
  "sendLog silent msg g = (if \<not> silent then g\<lparr>logChan := logChan g @ [msg]\<rparr> else g)"

definition send :: "slice \<Rightarrow> goroutine \<Rightarrow> goroutine" where
  \<comment> \<open>\<open>ch <- urls\<close>\<close>
  "send urls g = g\<lparr>ch := ch g @ [urls]\<rparr>"

definition Sleep :: "nat \<Rightarrow> goroutine \<Rightarrow> goroutine" where
  "Sleep d g = g\<lparr>slept := slept g @ [d]\<rparr>"

definition Done :: "goroutine \<Rightarrow> goroutine" where
  \<comment> \<open>the deferred \<open>wg.Done()\<close>\<close>
  "Done g = g\<lparr>wgDone := Suc (wgDone g)\<rparr>"

subsection \<open>\<open>makeRequestWithRetry\<close>\<close>

definition clientError :: "Response option \<Rightarrow> bool" where
  \<comment> \<open>\<open>resp != nil && (resp.StatusCode >= 400 && resp.StatusCode < 500)\<close>\<close>
  "clientError resp =
     (case resp of None \<Rightarrow> False | Some r \<Rightarrow> 400 \<le> StatusCode r \<and> StatusCode r < 500)"

definition statusOf :: "Response option \<Rightarrow> int" where
  "statusOf resp = (case resp of None \<Rightarrow> 0 | Some r \<Rightarrow> StatusCode r)"

definition retryWarning :: "string \<Rightarrow> nat \<Rightarrow> error \<Rightarrow> logMessage" where
  "retryWarning source i err =
     \<lparr>Type = ''WARNING'', Source = source,
      Message = ''Request failed (attempt '' @ showNat (i + 1) @ ''/'' @ showNat retryAttempts
        @ ''): '' @ err @ ''. Retrying in '' @ showNat retryDelay @ ''s...''\<rparr>"

definition clientErrorMessage :: "string \<Rightarrow> Response option \<Rightarrow> logMessage" where
  "clientErrorMessage source resp =
     \<lparr>Type = ''ERROR'', Source = source,
      Message = ''Client error '' @ showInt (statusOf resp) @ '', not retrying.''\<rparr>"

definition exhausted :: "error option \<Rightarrow> error" where
  \<comment> \<open>\<open>fmt.Errorf("request failed after %d attempts: %w", retryAttempts, err)\<close>\<close>
  "exhausted err =
     ''request failed after '' @ showNat retryAttempts @ '' attempts: ''
       @ (case err of None \<Rightarrow> ''%!w(<nil>)'' | Some e \<Rightarrow> e)"

text \<open>
  The loop \<open>for i := 0; i < retryAttempts; i++\<close>, entered at \<open>i\<close> with \<open>err\<close> the error
  of the attempt before.
\<close>

function retryLoop ::
  "world \<Rightarrow> Request \<Rightarrow> bool \<Rightarrow> string \<Rightarrow> nat \<Rightarrow> error option \<Rightarrow> goroutine \<Rightarrow> result \<times> goroutine"
where
  "retryLoop w req silent source i err g =
     (if i < retryAttempts then
        (case Do w req (doCalls g) of
           Returned resp \<Rightarrow> (Returned resp, g\<lparr>doCalls := Suc (doCalls g)\<rparr>)
         | Failed resp e \<Rightarrow>
             (if clientError resp then
                (Failed resp e,
                 sendLog silent (clientErrorMessage source resp)
                   (sendLog silent (retryWarning source i e) (g\<lparr>doCalls := Suc (doCalls g)\<rparr>)))
              else
                retryLoop w req silent source (i + 1) (Some e)
                  (Sleep retryDelay
                    (sendLog silent (retryWarning source i e) (g\<lparr>doCalls := Suc (doCalls g)\<rparr>)))))
      else (Failed None (exhausted err), g))"
  by pat_completeness auto
termination
  by (relation "measure (\<lambda>(w, req, silent, source, i, err, g). retryAttempts - i)") auto

declare retryLoop.simps [simp del]

definition makeRequestWithRetry ::
  "world \<Rightarrow> Request \<Rightarrow> bool \<Rightarrow> string \<Rightarrow> goroutine \<Rightarrow> result \<times> goroutine"
where
  "makeRequestWithRetry w req silent source g = retryLoop w req silent source 0 None g"

section \<open>The four queriers\<close>

text \<open>
  Each querier is a goroutine: the model takes what the goroutine has done so far and
  returns what it has done when it returns. The deferred \<open>wg.Done()\<close> runs on every
  return, so it is applied last, around the body. The deferred \<open>resp.Body.Close()\<close> has
  no effect on what follows and is left out.
\<close>

definition errorMessage :: "string \<Rightarrow> string \<Rightarrow> logMessage" where
  "errorMessage source text = \<lparr>Type = ''ERROR'', Source = source, Message = text\<rparr>"

definition foundMessage :: "string \<Rightarrow> slice \<Rightarrow> logMessage" where
  \<comment> \<open>\<open>fmt.Sprintf("Found %d URLs", len(urls))\<close>\<close>
  "foundMessage source urls =
     \<lparr>Type = ''SUCCESS'', Source = source,
      Message = ''Found '' @ showNat (len_go urls) @ '' URLs''\<rparr>"

subsection \<open>\<open>getVirusTotalURLs\<close>\<close>

definition vtUrls :: "VirusTotalResponse \<Rightarrow> slice" where
  \<comment> \<open>lines 202 to 209: \<open>urls\<close> starts as the nil slice\<close>
  "vtUrls r =
     (if ResponseCode r = 1 then
        foldl (\<lambda>urls item. if length item > 0 then append_go urls (item ! 0) else urls)
          None (UndetectedUrls r)
      else None)"

definition vtUrl :: "string \<Rightarrow> string \<Rightarrow> string" where
  "vtUrl apiKey domain =
     ''https://www.virustotal.com/vtapi/v2/domain/report?apikey='' @ apiKey
       @ ''&domain='' @ domain"

definition getVirusTotalURLs ::
  "world \<Rightarrow> string \<Rightarrow> string list \<Rightarrow> nat \<Rightarrow> bool \<Rightarrow> goroutine \<Rightarrow> goroutine"
where
  "getVirusTotalURLs w domain apiKeys apiKeyIndex silent g =
     Done
       (if length apiKeys = 0 then g
        else
          (let apiKey = apiKeys ! (apiKeyIndex mod length apiKeys)
           in case NewRequest w ''GET'' (vtUrl apiKey domain) of
                Inl err \<Rightarrow>
                  send None
                    (sendLog silent (errorMessage ''VT'' (''Failed to create request: '' @ err)) g)
              | Inr req \<Rightarrow>
                  (case makeRequestWithRetry w req silent ''VT'' g of
                     (Failed resp err, g1) \<Rightarrow>
                       send None (sendLog silent (errorMessage ''VT'' err) g1)
                   | (Returned resp, g1) \<Rightarrow>
                       (let urls = vtUrls (UnmarshalVT w (Body resp))
                        in send urls (sendLog silent (foundMessage ''VT'' urls) g1)))))"

subsection \<open>\<open>getAlienVaultURLs\<close>\<close>

definition otxUrl :: "string \<Rightarrow> nat \<Rightarrow> string" where
  "otxUrl domain page =
     ''https://otx.alienvault.com/api/v1/indicators/domain/'' @ domain
       @ ''/url_list?limit=500&page='' @ showNat page"

text \<open>
  The loop \<open>for { ... }\<close> of lines 220 to 254, entered with the URLs collected so far and
  the page to ask for. It ends at a \<open>break\<close>; a server that always answers \<open>has_next\<close>
  keeps it running for ever, and then the function has no value (\<open>None\<close>).
\<close>

partial_function (option) otxLoop ::
  "world \<Rightarrow> string \<Rightarrow> string list \<Rightarrow> nat \<Rightarrow> bool \<Rightarrow> slice \<Rightarrow> nat \<Rightarrow> goroutine
     \<Rightarrow> (slice \<times> goroutine) option"
where
  "otxLoop w domain apiKeys apiKeyIndex silent allUrls page g =
     (case NewRequest w ''GET'' (otxUrl domain page) of
        Inl err \<Rightarrow>
          Some (allUrls,
                sendLog silent (errorMessage ''OTX'' (''Failed to create request: '' @ err)) g)
      | Inr req0 \<Rightarrow>
          (case makeRequestWithRetry w
                  (if length apiKeys > 0
                   then HeaderAdd ''X-OTX-API-KEY'' (apiKeys ! (apiKeyIndex mod length apiKeys)) req0
                   else req0)
                  silent ''OTX'' g of
             (Failed resp err, g1) \<Rightarrow>
               Some (allUrls, sendLog silent (errorMessage ''OTX'' err) g1)
           | (Returned resp, g1) \<Rightarrow>
               (if \<not> HasNext (UnmarshalOTX w (Body resp))
                then Some (foldl append_go allUrls (URLList (UnmarshalOTX w (Body resp))), g1)
                else otxLoop w domain apiKeys apiKeyIndex silent
                       (foldl append_go allUrls (URLList (UnmarshalOTX w (Body resp))))
                       (page + 1) g1)))"

declare otxLoop.simps [code]

text \<open>
  Whether the loop, entered at \<open>page\<close>, reaches one of its three \<open>break\<close>s within \<open>n\<close>
  pages: the same tests as in \<open>otxLoop\<close>, without the URLs, which no test looks at.
\<close>

fun otxBreaks ::
  "world \<Rightarrow> string \<Rightarrow> string list \<Rightarrow> nat \<Rightarrow> bool \<Rightarrow> nat \<Rightarrow> nat \<Rightarrow> goroutine \<Rightarrow> bool"
where
  "otxBreaks w domain apiKeys apiKeyIndex silent 0 page g = False"
| "otxBreaks w domain apiKeys apiKeyIndex silent (Suc n) page g =
     (case NewRequest w ''GET'' (otxUrl domain page) of
        Inl err \<Rightarrow> True
      | Inr req0 \<Rightarrow>
          (case makeRequestWithRetry w
                  (if length apiKeys > 0
                   then HeaderAdd ''X-OTX-API-KEY'' (apiKeys ! (apiKeyIndex mod length apiKeys)) req0
                   else req0)
                  silent ''OTX'' g of
             (Failed resp err, g1) \<Rightarrow> True
           | (Returned resp, g1) \<Rightarrow>
               (if \<not> HasNext (UnmarshalOTX w (Body resp)) then True
                else otxBreaks w domain apiKeys apiKeyIndex silent n (page + 1) g1)))"

definition getAlienVaultURLs ::
  "world \<Rightarrow> string \<Rightarrow> string list \<Rightarrow> nat \<Rightarrow> bool \<Rightarrow> goroutine \<Rightarrow> goroutine option"
where
  "getAlienVaultURLs w domain apiKeys apiKeyIndex silent g =
     (case otxLoop w domain apiKeys apiKeyIndex silent None 1 g of
        None \<Rightarrow> None
      | Some (allUrls, g1) \<Rightarrow>
          Some (Done (send allUrls (sendLog silent (foundMessage ''OTX'' allUrls) g1))))"

subsection \<open>\<open>getWaybackURLs\<close>\<close>

definition waybackUrls :: "string \<Rightarrow> slice" where
  \<comment> \<open>lines 285 to 292\<close>
  "waybackUrls body =
     foldl (\<lambda>urls line. if TrimSpace line \<noteq> [] then append_go urls line else urls)
       None (Split body CHR 0x0A)"

definition waybackUrl :: "string \<Rightarrow> string" where
  "waybackUrl domain =
     ''https://web.archive.org/cdx/search/cdx?url=*.'' @ domain
       @ ''/*&output=text&fl=original&collapse=urlkey''"

definition getWaybackURLs :: "world \<Rightarrow> string \<Rightarrow> bool \<Rightarrow> goroutine \<Rightarrow> goroutine" where
  "getWaybackURLs w domain silent g =
     Done
       (case NewRequest w ''GET'' (waybackUrl domain) of
          Inl err \<Rightarrow>
            send None
              (sendLog silent (errorMessage ''Wayback'' (''Failed to create request: '' @ err)) g)
        | Inr req \<Rightarrow>
            (case makeRequestWithRetry w req silent ''Wayback'' g of
               (Failed resp err, g1) \<Rightarrow>
                 send None (sendLog silent (errorMessage ''Wayback'' err) g1)
             | (Returned resp, g1) \<Rightarrow>
                 (let urls = waybackUrls (Body resp)
                  in send urls (sendLog silent (foundMessage ''Wayback'' urls) g1))))"

subsection \<open>\<open>getHudsonRockURLs\<close>\<close>

definition noKeyWarning :: logMessage where
  "noKeyWarning =
     \<lparr>Type = ''WARNING'', Source = ''HudsonRock'',
      Message = ''Processing without API key (data may be redacted)...''\<rparr>"

definition hrUrl :: "string \<Rightarrow> string" where
  "hrUrl domain =
     ''https://cavalier.hudsonrock.com/api/json/v2/osint-tools/search-by-domain?domain=''
       @ domain"

definition getHudsonRockURLs ::
  "world \<Rightarrow> string \<Rightarrow> string list \<Rightarrow> nat \<Rightarrow> bool \<Rightarrow> goroutine \<Rightarrow> goroutine"
where
  "getHudsonRockURLs w domain apiKeys apiKeyIndex silent g =
     Done
       (case NewRequest w ''GET'' (hrUrl domain) of
          Inl err \<Rightarrow>
            send None
              (sendLog silent (errorMessage ''HudsonRock'' (''Failed to create request: '' @ err))
                 g)
        | Inr req0 \<Rightarrow>
            (case makeRequestWithRetry w
                    (if length apiKeys > 0
                     then HeaderAdd ''key'' (apiKeys ! (apiKeyIndex mod length apiKeys)) req0
                     else req0)
                    silent ''HudsonRock''
                    (if length apiKeys > 0 then g else sendLog silent noKeyWarning g) of
               (Failed resp err, g1) \<Rightarrow>
                 send None (sendLog silent (errorMessage ''HudsonRock'' err) g1)
             | (Returned resp, g1) \<Rightarrow>
                 (let urls = foldl append_go None (AllURLs (UnmarshalHR w (Body resp)))
                  in send urls (sendLog silent (foundMessage ''HudsonRock'' urls) g1))))"

section \<open>\<open>main\<close>\<close>

subsection \<open>The state of the loop over the domains\<close>

text \<open>
  \<open>finalUrlSet\<close> is a Go map \<open>map[string]struct{}\<close>, used as a set: the model keeps its
  keys, each once, in the order of their first insertion. Go leaves the order in which
  \<open>range\<close> visits a map unspecified; the model visits the keys in that order of insertion,
  and the theorems below speak of the set of the keys and of the absence of repetitions
  only.

  Beside the three variables of \<open>main\<close> (\<open>finalUrlSet\<close>, \<open>apiKeyIndex\<close>,
  \<open>failedDomains\<close>) the state records what the run has done: the messages the log consumer
  has printed, the messages read from the results channels (\<open>drained\<close>, a history of the
  run that the program itself does not keep) and the durations of the calls of
  \<open>time.Sleep\<close> by \<open>main\<close>. The lines that \<open>main\<close> itself writes with \<open>log.Printf\<close>
  (progress, warnings about skipped lines) are not modelled.
\<close>

record mainState =
  finalUrlSet :: "string list"
  apiKeyIndex :: nat
  failedDomains :: "string list"
  printed :: "logMessage list"
  drained :: "slice list"
  mainSlept :: "nat list"

definition initial :: mainState where
  "initial =
     \<lparr>finalUrlSet = [], apiKeyIndex = 0, failedDomains = [], printed = [], drained = [],
      mainSlept = []\<rparr>"

definition insertUrl :: "string list \<Rightarrow> string \<Rightarrow> string list" where
  \<comment> \<open>\<open>finalUrlSet[u] = struct{}{}\<close>\<close>
  "insertUrl m u = (if u \<in> set m then m else m @ [u])"

text \<open>
  \<open>excludedMap\<close>, lines 447 to 452; a key that was never stored reads as \<open>false\<close>.
\<close>

definition excludedMap :: "string \<Rightarrow> string \<Rightarrow> bool" where
  "excludedMap excludeSources key =
     (excludeSources \<noteq> [] \<and> key \<in> set (map TrimSpace (Split excludeSources CHR '','')))"

subsection \<open>One domain: dispatch, wait, drain\<close>

text \<open>
  Lines 542 to 562: one goroutine for each source that is not excluded, in this order.
  The goroutines share nothing but the two channels and the wait group, so each is run
  from \<open>idle\<close> on its own. \<open>runCount\<close> is the length of the list. An entry is \<open>None\<close>
  when that goroutine never returns.
\<close>

definition dispatched ::
  "world \<Rightarrow> Config \<Rightarrow> (string \<Rightarrow> bool) \<Rightarrow> bool \<Rightarrow> nat \<Rightarrow> string \<Rightarrow> goroutine option list"
where
  "dispatched w config excluded silent keyIndex domain =
     (if \<not> excluded ''vt''
      then [Some (getVirusTotalURLs w domain (VirusTotalKeys config) keyIndex silent idle)]
      else [])
     @ (if \<not> excluded ''otx''
        then [getAlienVaultURLs w domain (AlienVaultKeys config) keyIndex silent idle]
        else [])
     @ (if \<not> excluded ''wayback'' then [Some (getWaybackURLs w domain silent idle)] else [])
     @ (if \<not> excluded ''hr''
        then [Some (getHudsonRockURLs w domain (HudsonRockKeys config) keyIndex silent idle)]
        else [])"

text \<open>
  \<open>wg.Wait()\<close> returns when every dispatched goroutine has returned; with none
  dispatched the program does not wait. The channels then hold what the goroutines have
  sent. Both channels have room for 4 messages: a querier sends at most one message on
  the results channel, so no send on it blocks, and the log consumer empties \<open>logChan\<close>
  while the queriers run. The order of the messages of different goroutines in a channel
  depends on the schedule; the model takes them goroutine by goroutine (the last section
  shows that \<open>domainSuccess\<close> and the set are the same for every schedule).
\<close>

definition waited :: "goroutine option list \<Rightarrow> goroutine list option" where
  "waited gs = (if list_all (\<lambda>g. g \<noteq> None) gs then Some (map the gs) else None)"

text \<open>
  The loop \<open>for urls := range urlChannel\<close>, lines 577 to 584, from the messages still in
  the channel, \<open>domainSuccess\<close> and the set.
\<close>

fun drain :: "slice list \<Rightarrow> bool \<Rightarrow> string list \<Rightarrow> bool \<times> string list" where
  "drain [] success m = (success, m)"
| "drain (urls # rest) success m =
     drain rest (if urls \<noteq> None then True else success) (foldl insertUrl m (range_go urls))"

text \<open>
  Lines 517 to 600 for one domain that passed the checks; \<open>another\<close> is the condition
  \<open>i < len(domains)-1\<close>.
\<close>

definition processDomain ::
  "world \<Rightarrow> Config \<Rightarrow> (string \<Rightarrow> bool) \<Rightarrow> bool \<Rightarrow> bool \<Rightarrow> string \<Rightarrow> mainState \<Rightarrow> mainState option"
where
  "processDomain w config excluded silent another domain st =
     (let gs = dispatched w config excluded silent (apiKeyIndex st) domain;
          runCount = length gs
      in case waited gs of
           None \<Rightarrow> None
         | Some finished \<Rightarrow>
             (let urlChannel = concat (map ch finished);
                  (domainSuccess, m) = drain urlChannel False (finalUrlSet st)
              in Some
                   \<lparr>finalUrlSet = m,
                    apiKeyIndex = apiKeyIndex st + 1,
                    failedDomains =
                      (if \<not> domainSuccess \<and> runCount > 0
                       then failedDomains st @ [domain] else failedDomains st),
                    printed = printed st @ concat (map logChan finished),
                    drained = drained st @ urlChannel,
                    mainSlept =
                      (if another then mainSlept st @ [requestDelay] else mainSlept st)\<rparr>))"

subsection \<open>The loop over the input lines\<close>

text \<open>
  \<open>for i, domain := range domains\<close>, lines 492 to 601, from line \<open>i\<close> on; \<open>n\<close> is
  \<open>len(domains)\<close> and \<open>env i\<close> is the world during iteration \<open>i\<close>. A line that is
  empty, cleans to the empty string or is not a valid domain is skipped by \<open>continue\<close>,
  which also skips the increment of \<open>apiKeyIndex\<close> and the delay.
\<close>

fun mainLoop ::
  "(nat \<Rightarrow> world) \<Rightarrow> Config \<Rightarrow> (string \<Rightarrow> bool) \<Rightarrow> bool \<Rightarrow> nat \<Rightarrow> nat \<Rightarrow> string list
     \<Rightarrow> mainState \<Rightarrow> mainState option"
where
  "mainLoop env config excluded silent n i [] st = Some st"
| "mainLoop env config excluded silent n i (line # rest) st =
     (if TrimSpace line = [] then mainLoop env config excluded silent n (i + 1) rest st
      else if cleanDomainLine (TrimSpace line) = []
      then mainLoop env config excluded silent n (i + 1) rest st
      else if \<not> isValidDomain (cleanDomainLine (TrimSpace line))
      then mainLoop env config excluded silent n (i + 1) rest st
      else
        (case processDomain (env i) config excluded silent (i + 1 < n)
                (cleanDomainLine (TrimSpace line)) st of
           None \<Rightarrow> None
         | Some st' \<Rightarrow> mainLoop env config excluded silent n (i + 1) rest st'))"

subsection \<open>Output, interrupt and exit\<close>

record flags =
  outputFile :: string
  inputFile :: string
  silent :: bool
  excludeSources :: string
  versionFlag :: bool

text \<open>
  What the process writes on standard output (\<open>fmt.Println\<close>): the version line, the
  banner, one line for each URL.
\<close>

datatype outLine = VersionLine | Banner | UrlLine string

text \<open>
  The end of a run: the exit status, standard output, the calls of \<open>writeLinesToFile\<close>
  that succeeded (path and lines, in order) and the state of \<open>main\<close> at that moment.
\<close>

record outcome =
  exitCode :: nat
  stdout :: "outLine list"
  written :: "(string \<times> string list) list"
  final :: mainState

text \<open>
  \<open>writeLinesToFile\<close> creates or truncates the file and writes one line for each element.
  \<open>canCreate path\<close> tells whether \<open>os.Create\<close> succeeds; an error of the final
  \<open>Flush\<close> is not modelled.
\<close>

definition writeLinesToFile ::
  "(string \<Rightarrow> bool) \<Rightarrow> string \<Rightarrow> string list \<Rightarrow> (string \<times> string list) list
     \<Rightarrow> error + (string \<times> string list) list"
where
  "writeLinesToFile canCreate path lines ws =
     (if canCreate path then Inr (ws @ [(path, lines)]) else Inl (''open '' @ path))"

definition fatal :: "outLine list \<Rightarrow> (string \<times> string list) list \<Rightarrow> mainState \<Rightarrow> outcome" where
  \<comment> \<open>\<open>log.Fatalf\<close>: a line on standard error, then \<open>os.Exit(1)\<close>\<close>
  "fatal out ws st = \<lparr>exitCode = 1, stdout = out, written = ws, final = st\<rparr>"

text \<open>
  The goroutine of lines 462 to 490, once the signal has arrived, run from its first line
  to its last on the state that \<open>main\<close> has reached, with \<open>main\<close> standing still.
\<close>

definition onInterrupt ::
  "flags \<Rightarrow> (string \<Rightarrow> bool) \<Rightarrow> outLine list \<Rightarrow> mainState \<Rightarrow> outcome"
where
  "onInterrupt fl canCreate out st =
     (case writeLinesToFile canCreate (outputFile fl) (finalUrlSet st) [] of
        Inl err \<Rightarrow> fatal out [] st
      | Inr ws \<Rightarrow>
          (if length (failedDomains st) > 0 then
             (case writeLinesToFile canCreate ''failed_domains.txt'' (failedDomains st) ws of
                Inl err \<Rightarrow> fatal out ws st
              | Inr ws' \<Rightarrow> \<lparr>exitCode = 0, stdout = out, written = ws', final = st\<rparr>)
           else \<lparr>exitCode = 0, stdout = out, written = ws, final = st\<rparr>))"

text \<open>Lines 603 to 626: the end of a run that was not interrupted.\<close>

definition finish ::
  "flags \<Rightarrow> (string \<Rightarrow> bool) \<Rightarrow> outLine list \<Rightarrow> mainState \<Rightarrow> outcome"
where
  "finish fl canCreate out st =
     (case (if length (failedDomains st) > 0
            then writeLinesToFile canCreate ''failed_domains.txt'' (failedDomains st) []
            else Inr []) of
        Inl err \<Rightarrow> fatal out [] st
      | Inr ws \<Rightarrow>
          (if silent fl then
             \<lparr>exitCode = 0, stdout = out @ map UrlLine (finalUrlSet st), written = ws, final = st\<rparr>
           else
             (case writeLinesToFile canCreate (outputFile fl) (finalUrlSet st) ws of
                Inl err \<Rightarrow> fatal out ws st
              | Inr ws' \<Rightarrow> \<lparr>exitCode = 0, stdout = out, written = ws', final = st\<rparr>)))"

text \<open>
  \<open>main\<close>. Its inputs: the flags, the result of \<open>loadConfig\<close>, the result of reading the
  lines of the input, the world of each iteration, the files that can be created, and the
  interrupt.

  The signal is asynchronous, and the goroutine that handles it runs beside \<open>main\<close>.
  This function gives the runs in which the signal arrives while \<open>main\<close> is between two
  iterations of the loop (in \<open>time.Sleep(requestDelay)\<close>, where a run spends nearly all of
  its time) and that goroutine reaches \<open>os.Exit\<close> before \<open>main\<close> goes on: \<open>Some k\<close>
  with \<open>k < len(domains)\<close> means that the signal arrives when \<open>k\<close> lines have been
  handled. \<open>None\<close>, or a larger \<open>k\<close>, means that no signal arrives before the run ends.
  The result is \<open>None\<close> when a querier never returns and no signal arrives before.

  The runs in which that goroutine works while \<open>main\<close> is in lines 577 to 588 are not
  among these. They are the subject of the section on the watcher, where the two
  goroutines are stepped by a scheduler, one access to the shared variables at a time;
  the runs of this function are runs of that machine.
\<close>

definition main ::
  "flags \<Rightarrow> error + Config \<Rightarrow> error + string list \<Rightarrow> (nat \<Rightarrow> world) \<Rightarrow> (string \<Rightarrow> bool)
     \<Rightarrow> nat option \<Rightarrow> outcome option"
where
  "main fl loaded input env canCreate signal =
     (if versionFlag fl
      then Some \<lparr>exitCode = 0, stdout = [VersionLine], written = [], final = initial\<rparr>
      else
        (let out = (if \<not> silent fl then [Banner] else [])
         in case loaded of
              Inl err \<Rightarrow> Some (fatal out [] initial)
            | Inr config \<Rightarrow>
                (case input of
                   Inl err \<Rightarrow> Some (fatal out [] initial)
                 | Inr domains \<Rightarrow>
                     (if length domains = 0 then Some (fatal out [] initial)
                      else
                        (case signal of
                           None \<Rightarrow>
                             map_option (finish fl canCreate out)
                               (mainLoop env config (excludedMap (excludeSources fl)) (silent fl)
                                  (length domains) 0 domains initial)
                         | Some k \<Rightarrow>
                             (if k < length domains then
                                map_option (onInterrupt fl canCreate out)
                                  (mainLoop env config (excludedMap (excludeSources fl))
                                     (silent fl) (length domains) 0 (take k domains) initial)
                              else
                                map_option (finish fl canCreate out)
                                  (mainLoop env config (excludedMap (excludeSources fl))
                                     (silent fl) (length domains) 0 domains initial)))))))"

text \<open>The URLs carried by a list of messages of the results channel.\<close>

definition urlsOf :: "slice list \<Rightarrow> string set" where
  "urlsOf msgs = set (concat (map range_go msgs))"

text \<open>No message of a list is a URL list: each is the nil slice.\<close>

definition allAbsent :: "slice list \<Rightarrow> bool" where
  "allAbsent msgs = list_all (\<lambda>urls. urls = None) msgs"

section \<open>The goroutines of one domain, step by step\<close>

text \<open>
  Lines 517 to 588 start a log consumer and one goroutine for each enabled source, and
  synchronise them with two channels of capacity 4 and two wait groups. The functional
  model above runs the goroutines one after another; to speak of the order of events
  between them, this section gives the same lines as a machine that a scheduler drives one
  step at a time, any goroutine at any moment.

  The semantics of Go that matter: a send on a channel with a full buffer blocks; a send
  on a closed channel panics; \<open>range\<close> over a channel receives until the channel is closed
  and empty; \<open>wg.Wait()\<close> blocks until the counter is 0.

  Of a querier only its communication matters here: it sends some messages, each on
  \<open>logChan\<close> or on the results channel, and then returns, which runs its deferred
  \<open>wg.Done()\<close>.
\<close>

datatype action = LogSend logMessage | UrlSend slice

text \<open>
  The script of a querier goroutine, from what the functional model says it sends: in
  each of the four queriers every send on \<open>logChan\<close> comes before the send on \<open>ch\<close>.
\<close>

definition script :: "goroutine \<Rightarrow> action list" where
  "script g = map LogSend (logChan g) @ map UrlSend (ch g)"

text \<open>Where \<open>main\<close> stands, by the line it is about to run.\<close>

datatype label =
    Dispatching  \<comment> \<open>lines 542 to 562\<close>
  | Branching    \<comment> \<open>line 564, \<open>if runCount == 0\<close>\<close>
  | Waiting      \<comment> \<open>line 571, \<open>wg.Wait()\<close>\<close>
  | ClosingUrl   \<comment> \<open>lines 568 and 572, \<open>close(urlChannel)\<close>\<close>
  | ClosingLog   \<comment> \<open>lines 569 and 573, \<open>close(logChan)\<close>\<close>
  | WaitingLog   \<comment> \<open>line 576, \<open>logWg.Wait()\<close>\<close>
  | Draining     \<comment> \<open>lines 577 to 584, \<open>for urls := range urlChannel\<close>\<close>
  | Deciding     \<comment> \<open>line 586, \<open>if !domainSuccess && runCount > 0\<close>\<close>
  | Ended

datatype pid = Main | Consumer | Querier nat

text \<open>
  The state: where \<open>main\<close> stands; the scripts of the goroutines it has still to start;
  the goroutines started, each with what is left of its script and whether it has
  returned; the two counters; \<open>runCount\<close>; the two channels (buffer and closed flag);
  whether the log consumer has returned and what it has printed; what \<open>main\<close> has
  received from the results channel and \<open>domainSuccess\<close>; whether a goroutine has
  panicked.
\<close>

record sys =
  pcMain :: label
  toDispatch :: "action list list"
  running :: "(action list \<times> bool) list"
  wgCount :: nat
  logWgCount :: nat
  runCount :: nat
  urlBuf :: "slice list"
  urlClosed :: bool
  logBuf :: "logMessage list"
  logClosed :: bool
  consumerDone :: bool
  shown :: "logMessage list"
  got :: "slice list"
  success :: bool
  panicked :: bool

text \<open>
  The state at line 542: the channels are made, \<open>logWg.Add(1)\<close> is done and the log
  consumer is started (lines 517 to 540).
\<close>

definition start :: "action list list \<Rightarrow> sys" where
  "start scripts =
     \<lparr>pcMain = Dispatching, toDispatch = scripts, running = [], wgCount = 0,
      logWgCount = 1, runCount = 0, urlBuf = [], urlClosed = False, logBuf = [],
      logClosed = False, consumerDone = False, shown = [], got = [], success = False,
      panicked = False\<rparr>"

definition capacity :: nat where
  "capacity = 4"

text \<open>One step of \<open>main\<close>; a step that is blocked leaves the state as it is.\<close>

definition stepMain :: "sys \<Rightarrow> sys" where
  "stepMain s =
     (case pcMain s of
        Dispatching \<Rightarrow>
          (case toDispatch s of
             [] \<Rightarrow> s\<lparr>pcMain := Branching\<rparr>
           | a # rest \<Rightarrow>
               s\<lparr>toDispatch := rest, runCount := runCount s + 1, wgCount := wgCount s + 1,
                 running := running s @ [(a, False)]\<rparr>)
      | Branching \<Rightarrow> (if runCount s = 0 then s\<lparr>pcMain := ClosingUrl\<rparr> else s\<lparr>pcMain := Waiting\<rparr>)
      | Waiting \<Rightarrow> (if wgCount s = 0 then s\<lparr>pcMain := ClosingUrl\<rparr> else s)
      | ClosingUrl \<Rightarrow> s\<lparr>urlClosed := True, pcMain := ClosingLog\<rparr>
      | ClosingLog \<Rightarrow> s\<lparr>logClosed := True, pcMain := WaitingLog\<rparr>
      | WaitingLog \<Rightarrow> (if logWgCount s = 0 then s\<lparr>pcMain := Draining\<rparr> else s)
      | Draining \<Rightarrow>
          (case urlBuf s of
             urls # rest \<Rightarrow>
               s\<lparr>urlBuf := rest, got := got s @ [urls],
                 success := (if urls \<noteq> None then True else success s)\<rparr>
           | [] \<Rightarrow> (if urlClosed s then s\<lparr>pcMain := Deciding\<rparr> else s))
      | Deciding \<Rightarrow> s\<lparr>pcMain := Ended\<rparr>
      | Ended \<Rightarrow> s)"

text \<open>One step of the log consumer, lines 524 to 540.\<close>

definition stepConsumer :: "sys \<Rightarrow> sys" where
  "stepConsumer s =
     (if consumerDone s then s
      else
        (case logBuf s of
           msg # rest \<Rightarrow> s\<lparr>logBuf := rest, shown := shown s @ [msg]\<rparr>
         | [] \<Rightarrow>
             (if logClosed s then s\<lparr>consumerDone := True, logWgCount := logWgCount s - 1\<rparr>
              else s)))"

text \<open>One step of the querier that was started as number \<open>i\<close>.\<close>

definition stepQuerier :: "nat \<Rightarrow> sys \<Rightarrow> sys" where
  "stepQuerier i s =
     (if i < length (running s) then
        (case running s ! i of
           (acts, returned) \<Rightarrow>
             (if returned then s
              else
                (case acts of
                   [] \<Rightarrow> s\<lparr>running := (running s)[i := ([], True)], wgCount := wgCount s - 1\<rparr>
                 | LogSend msg # rest \<Rightarrow>
                     (if logClosed s then s\<lparr>panicked := True\<rparr>
                      else if length (logBuf s) < capacity
                      then s\<lparr>logBuf := logBuf s @ [msg], running := (running s)[i := (rest, False)]\<rparr>
                      else s)
                 | UrlSend urls # rest \<Rightarrow>
                     (if urlClosed s then s\<lparr>panicked := True\<rparr>
                      else if length (urlBuf s) < capacity
                      then s\<lparr>urlBuf := urlBuf s @ [urls], running := (running s)[i := (rest, False)]\<rparr>
                      else s))))
      else s)"

definition step :: "sys \<Rightarrow> pid \<Rightarrow> sys" where
  "step s p = (case p of Main \<Rightarrow> stepMain s | Consumer \<Rightarrow> stepConsumer s | Querier i \<Rightarrow> stepQuerier i s)"

text \<open>A schedule is the list of the goroutines in the order in which they take a step.\<close>

definition exec :: "pid list \<Rightarrow> sys \<Rightarrow> sys" where
  "exec schedule s = foldl step s schedule"

text \<open>The messages that a script sends on \<open>logChan\<close>.\<close>

fun logsOf :: "action list \<Rightarrow> logMessage list" where
  "logsOf [] = []"
| "logsOf (LogSend msg # rest) = msg # logsOf rest"
| "logsOf (UrlSend urls # rest) = logsOf rest"

text \<open>
  What C7 asks of a state: every goroutine has been started and has returned, both
  channels are closed, the log consumer has returned and nothing is left in \<open>logChan\<close>.
\<close>

definition settled :: "action list list \<Rightarrow> sys \<Rightarrow> bool" where
  "settled scripts s =
     (toDispatch s = [] \<and> length (running s) = length scripts \<and> list_all snd (running s)
      \<and> wgCount s = 0 \<and> urlClosed s \<and> logClosed s \<and> consumerDone s \<and> logWgCount s = 0
      \<and> logBuf s = [])"

definition reading :: "sys \<Rightarrow> bool" where
  "reading s = (pcMain s = Draining \<or> pcMain s = Deciding \<or> pcMain s = Ended \<or> got s \<noteq> [])"

text \<open>The lines of \<open>main\<close> that come after a given one.\<close>

definition pastWait :: "label \<Rightarrow> bool" where
  "pastWait l = (l = ClosingUrl \<or> l = ClosingLog \<or> l = WaitingLog \<or> l = Draining
                 \<or> l = Deciding \<or> l = Ended)"

definition pastCloseUrl :: "label \<Rightarrow> bool" where
  "pastCloseUrl l = (l = ClosingLog \<or> l = WaitingLog \<or> l = Draining \<or> l = Deciding \<or> l = Ended)"

definition pastCloseLog :: "label \<Rightarrow> bool" where
  "pastCloseLog l = (l = WaitingLog \<or> l = Draining \<or> l = Deciding \<or> l = Ended)"

definition pastWaitLog :: "label \<Rightarrow> bool" where
  "pastWaitLog l = (l = Draining \<or> l = Deciding \<or> l = Ended)"

text \<open>
  What holds in every state that a schedule can reach: the wait group counts the
  goroutines that have not returned; a goroutine that has returned has nothing left
  to send; the channels are closed exactly from the lines that close them on; and the
  lines of \<open>main\<close> past each wait are reached only when what is waited for has happened.
\<close>

definition invariant :: "action list list \<Rightarrow> sys \<Rightarrow> bool" where
  "invariant scripts s =
     (\<not> panicked s
      \<and> length (running s) + length (toDispatch s) = length scripts
      \<and> runCount s = length (running s)
      \<and> wgCount s = length (filter (\<lambda>r. \<not> snd r) (running s))
      \<and> list_all (\<lambda>r. snd r \<longrightarrow> fst r = []) (running s)
      \<and> logWgCount s = (if consumerDone s then 0 else 1)
      \<and> (consumerDone s \<longrightarrow> logClosed s \<and> logBuf s = [])
      \<and> (pcMain s \<noteq> Dispatching \<longrightarrow> toDispatch s = [])
      \<and> (pastWait (pcMain s) \<longrightarrow> wgCount s = 0)
      \<and> (urlClosed s \<longleftrightarrow> pastCloseUrl (pcMain s))
      \<and> (logClosed s \<longleftrightarrow> pastCloseLog (pcMain s))
      \<and> (pastWaitLog (pcMain s) \<longrightarrow> consumerDone s)
      \<and> (got s \<noteq> [] \<longrightarrow> pastWaitLog (pcMain s)))"

text \<open>
  No message for \<open>logChan\<close> is lost: those printed, those in the buffer and those still
  to be sent are, together, those of the scripts.
\<close>

definition conserved :: "action list list \<Rightarrow> sys \<Rightarrow> bool" where
  "conserved scripts s =
     (mset (shown s) + mset (logBuf s)
        + sum_list (map (\<lambda>r. mset (logsOf (fst r))) (running s))
        + sum_list (map (\<lambda>a. mset (logsOf a)) (toDispatch s))
      = sum_list (map (\<lambda>a. mset (logsOf a)) scripts))"

text \<open>
  The same for the results channel: the messages received by \<open>main\<close>, those in the
  buffer and those still to be sent are, together, those of the scripts; once \<open>main\<close> is
  past the drain loop the buffer is empty; and \<open>domainSuccess\<close> says whether a message
  received was not nil.
\<close>

fun urlsIn :: "action list \<Rightarrow> slice list" where
  "urlsIn [] = []"
| "urlsIn (LogSend msg # rest) = urlsIn rest"
| "urlsIn (UrlSend urls # rest) = urls # urlsIn rest"

definition conservedUrls :: "action list list \<Rightarrow> sys \<Rightarrow> bool" where
  "conservedUrls scripts s =
     (mset (got s) + mset (urlBuf s)
        + sum_list (map (\<lambda>r. mset (urlsIn (fst r))) (running s))
        + sum_list (map (\<lambda>a. mset (urlsIn a)) (toDispatch s))
      = sum_list (map (\<lambda>a. mset (urlsIn a)) scripts))"

definition pastDrain :: "label \<Rightarrow> bool" where
  "pastDrain l = (l = Deciding \<or> l = Ended)"

definition drainedOut :: "sys \<Rightarrow> bool" where
  "drainedOut s =
     ((pastDrain (pcMain s) \<longrightarrow> urlBuf s = []) \<and> (success s \<longleftrightarrow> \<not> allAbsent (got s)))"

section \<open>\<open>main\<close> and the watcher of the interrupt signal, step by step\<close>

text \<open>
  The goroutine of lines 462 to 490 waits for the signal and then reads \<open>finalUrlSet\<close> and
  \<open>failedDomains\<close>, the two variables that \<open>main\<close> writes in lines 577 to 588. Nothing
  orders these reads and writes: the program has no lock and no channel between the two
  goroutines, and \<open>main\<close> goes on running until the watcher calls \<open>os.Exit\<close>. This
  section gives lines 462 to 626 as a machine that a scheduler drives one step at a time,
  \<open>main\<close> or the watcher at any moment, with one step of \<open>main\<close> for each read or write
  of a shared variable.

  The semantics of Go that matter: a map is not safe for use by two goroutines at once.
  An assignment \<open>m[k] = v\<close> marks the map as being written for as long as it lasts, and a
  step of \<open>range\<close> over a map that finds this mark stops the whole process (\<open>fatal error:
  concurrent map iteration and map write\<close>, exit status 2, no deferred call and no
  handler runs). The machine therefore gives the assignment of line 580 two steps, its
  beginning and its end.
\<close>

text \<open>Where \<open>main\<close> stands, by the line it is about to run.\<close>

datatype place =
    LoopHead
      \<comment> \<open>line 492, \<open>for i, domain := range domains\<close>\<close>
  | AtWait "goroutine option list"
      \<comment> \<open>lines 564 to 576: the queriers of lines 542 to 562 are started, \<open>main\<close> waits for them\<close>
  | RangeChannel "slice list"
      \<comment> \<open>line 577, \<open>for urls := range urlChannel\<close>, with the messages left in the channel\<close>
  | RangeUrls "slice list" "string list"
      \<comment> \<open>line 579, \<open>for _, u := range urls\<close>, with the URLs left in the message\<close>
  | MapAssign "slice list" "string list" string
      \<comment> \<open>line 580, inside \<open>finalUrlSet[u] = struct{}{}\<close>: the write of the map has begun\<close>
  | FailedCheck
      \<comment> \<open>lines 586 to 588\<close>
  | Increment
      \<comment> \<open>lines 590 to 600, \<open>apiKeyIndex++\<close> and the delay\<close>
  | FailedFile
      \<comment> \<open>lines 603 to 615\<close>
  | Output
      \<comment> \<open>lines 617 to 625\<close>
  | Return
      \<comment> \<open>line 626: \<open>main\<close> returns and the process ends with status 0\<close>

text \<open>Where the watcher stands.\<close>

datatype watch =
    Receive
      \<comment> \<open>line 463, \<open><-sigChan\<close>\<close>
  | RangeSet nat slice
      \<comment> \<open>lines 468 to 471, \<open>for u := range finalUrlSet\<close>: the number of entries visited and
          \<open>finalUrls\<close>\<close>
  | WriteUrls slice
      \<comment> \<open>line 473, \<open>writeLinesToFile(*outputFile, finalUrls)\<close>\<close>
  | LenFailed
      \<comment> \<open>line 477, \<open>if len(failedDomains) > 0\<close>\<close>
  | WriteFailed
      \<comment> \<open>line 481, \<open>writeLinesToFile("failed_domains.txt", failedDomains)\<close>\<close>
  | Exit
      \<comment> \<open>line 489, \<open>os.Exit(0)\<close>\<close>

text \<open>
  The state: the lines that the loop has not reached yet and the index \<open>i\<close> of the
  current one; the variables of \<open>main\<close>; where \<open>main\<close> stands, with the domain,
  \<open>runCount\<close> and \<open>domainSuccess\<close> of the current iteration; whether the signal has been
  delivered to \<open>sigChan\<close>; where the watcher stands; standard output; the files written;
  the exit status, once the process has ended.
\<close>

record process =
  toDo :: "string list"
  lineNo :: nat
  lineCount :: nat
  vars :: mainState
  atMain :: place
  curDomain :: string
  curCount :: nat
  curSuccess :: bool
  signalled :: bool
  atWatcher :: watch
  outputs :: "outLine list"
  files :: "(string \<times> string list) list"
  exited :: "nat option"

text \<open>
  The state at line 492, for a run that has passed the flags, \<open>loadConfig\<close> and the
  reading of the input.
\<close>

definition launch :: "flags \<Rightarrow> string list \<Rightarrow> process" where
  "launch fl domains =
     \<lparr>toDo = domains, lineNo = 0, lineCount = length domains, vars = initial,
      atMain = LoopHead, curDomain = [], curCount = 0, curSuccess = False,
      signalled = False, atWatcher = Receive,
      outputs = (if \<not> silent fl then [Banner] else []), files = [], exited = None\<rparr>"

definition writing :: "process \<Rightarrow> bool" where
  "writing s = (case atMain s of MapAssign msgs us u \<Rightarrow> True | _ \<Rightarrow> False)"

text \<open>
  One step of \<open>main\<close>. At \<open>wg.Wait()\<close> it is blocked for as long as a querier has not
  returned; the model of the queriers says which of them return, so \<open>main\<close> is blocked
  for ever when one of them does not.
\<close>

definition mainStep :: "(nat \<Rightarrow> world) \<Rightarrow> Config \<Rightarrow> flags \<Rightarrow> (string \<Rightarrow> bool) \<Rightarrow> process \<Rightarrow> process"
where
  "mainStep env config fl canCreate s =
     (case atMain s of
        LoopHead \<Rightarrow>
          (case toDo s of
             [] \<Rightarrow> s\<lparr>atMain := FailedFile\<rparr>
           | line # rest \<Rightarrow>
               (if TrimSpace line = [] \<or> cleanDomainLine (TrimSpace line) = []
                   \<or> \<not> isValidDomain (cleanDomainLine (TrimSpace line))
                then s\<lparr>toDo := rest, lineNo := lineNo s + 1\<rparr>
                else
                  s\<lparr>toDo := rest, curDomain := cleanDomainLine (TrimSpace line),
                    curSuccess := False,
                    atMain :=
                      AtWait (dispatched (env (lineNo s)) config (excludedMap (excludeSources fl))
                                (silent fl) (apiKeyIndex (vars s))
                                (cleanDomainLine (TrimSpace line)))\<rparr>))
      | AtWait gs \<Rightarrow>
          (case waited gs of
             None \<Rightarrow> s
           | Some finished \<Rightarrow>
               s\<lparr>curCount := length gs,
                 vars := (vars s)\<lparr>printed := printed (vars s) @ concat (map logChan finished)\<rparr>,
                 atMain := RangeChannel (concat (map ch finished))\<rparr>)
      | RangeChannel msgs \<Rightarrow>
          (case msgs of
             [] \<Rightarrow> s\<lparr>atMain := FailedCheck\<rparr>
           | urls # rest \<Rightarrow>
               s\<lparr>curSuccess := (if urls \<noteq> None then True else curSuccess s),
                 vars := (vars s)\<lparr>drained := drained (vars s) @ [urls]\<rparr>,
                 atMain := RangeUrls rest (range_go urls)\<rparr>)
      | RangeUrls msgs us \<Rightarrow>
          (case us of
             [] \<Rightarrow> s\<lparr>atMain := RangeChannel msgs\<rparr>
           | u # rest \<Rightarrow> s\<lparr>atMain := MapAssign msgs rest u\<rparr>)
      | MapAssign msgs us u \<Rightarrow>
          s\<lparr>vars := (vars s)\<lparr>finalUrlSet := insertUrl (finalUrlSet (vars s)) u\<rparr>,
            atMain := RangeUrls msgs us\<rparr>
      | FailedCheck \<Rightarrow>
          s\<lparr>vars :=
              (if \<not> curSuccess s \<and> curCount s > 0
               then (vars s)\<lparr>failedDomains := failedDomains (vars s) @ [curDomain s]\<rparr>
               else vars s),
            atMain := Increment\<rparr>
      | Increment \<Rightarrow>
          s\<lparr>vars :=
              (vars s)\<lparr>apiKeyIndex := apiKeyIndex (vars s) + 1,
                       mainSlept :=
                         (if lineNo s + 1 < lineCount s then mainSlept (vars s) @ [requestDelay]
                          else mainSlept (vars s))\<rparr>,
            lineNo := lineNo s + 1, atMain := LoopHead\<rparr>
      | FailedFile \<Rightarrow>
          (if length (failedDomains (vars s)) > 0 then
             (case writeLinesToFile canCreate ''failed_domains.txt'' (failedDomains (vars s))
                     (files s) of
                Inl err \<Rightarrow> s\<lparr>exited := Some 1\<rparr>
              | Inr ws \<Rightarrow> s\<lparr>files := ws, atMain := Output\<rparr>)
           else s\<lparr>atMain := Output\<rparr>)
      | Output \<Rightarrow>
          (if silent fl
           then s\<lparr>outputs := outputs s @ map UrlLine (finalUrlSet (vars s)), atMain := Return\<rparr>
           else
             (case writeLinesToFile canCreate (outputFile fl) (finalUrlSet (vars s)) (files s) of
                Inl err \<Rightarrow> s\<lparr>exited := Some 1\<rparr>
              | Inr ws \<Rightarrow> s\<lparr>files := ws, atMain := Return\<rparr>))
      | Return \<Rightarrow> s\<lparr>exited := Some 0\<rparr>)"

text \<open>
  One step of the watcher. Before the signal it is blocked. A step of its \<open>range\<close> that
  finds the map being written ends the process with status 2; otherwise it visits the
  next key (Go leaves open whether a key inserted while the loop runs is visited; here
  it is). \<open>log.Fatalf\<close> ends the process with status 1.
\<close>

definition watcherStep :: "flags \<Rightarrow> (string \<Rightarrow> bool) \<Rightarrow> process \<Rightarrow> process" where
  "watcherStep fl canCreate s =
     (case atWatcher s of
        Receive \<Rightarrow> (if signalled s then s\<lparr>atWatcher := RangeSet 0 None\<rparr> else s)
      | RangeSet visited finalUrls \<Rightarrow>
          (if writing s then s\<lparr>exited := Some 2\<rparr>
           else if visited < length (finalUrlSet (vars s))
           then s\<lparr>atWatcher :=
                    RangeSet (visited + 1) (append_go finalUrls (finalUrlSet (vars s) ! visited))\<rparr>
           else s\<lparr>atWatcher := WriteUrls finalUrls\<rparr>)
      | WriteUrls finalUrls \<Rightarrow>
          (case writeLinesToFile canCreate (outputFile fl) (range_go finalUrls) (files s) of
             Inl err \<Rightarrow> s\<lparr>exited := Some 1\<rparr>
           | Inr ws \<Rightarrow> s\<lparr>files := ws, atWatcher := LenFailed\<rparr>)
      | LenFailed \<Rightarrow>
          (if length (failedDomains (vars s)) > 0 then s\<lparr>atWatcher := WriteFailed\<rparr>
           else s\<lparr>atWatcher := Exit\<rparr>)
      | WriteFailed \<Rightarrow>
          (case writeLinesToFile canCreate ''failed_domains.txt'' (failedDomains (vars s))
                  (files s) of
             Inl err \<Rightarrow> s\<lparr>exited := Some 1\<rparr>
           | Inr ws \<Rightarrow> s\<lparr>files := ws, atWatcher := Exit\<rparr>)
      | Exit \<Rightarrow> s\<lparr>exited := Some 0\<rparr>)"

text \<open>
  What the scheduler can choose: a step of \<open>main\<close>, a step of the watcher, or the
  delivery of the interrupt signal to \<open>sigChan\<close>. Once the process has ended nothing
  runs.
\<close>

datatype actor = Driver | Watcher | Signal

definition advance ::
  "(nat \<Rightarrow> world) \<Rightarrow> Config \<Rightarrow> flags \<Rightarrow> (string \<Rightarrow> bool) \<Rightarrow> process \<Rightarrow> actor \<Rightarrow> process"
where
  "advance env config fl canCreate s a =
     (if exited s \<noteq> None then s
      else
        (case a of
           Driver \<Rightarrow> mainStep env config fl canCreate s
         | Watcher \<Rightarrow> watcherStep fl canCreate s
         | Signal \<Rightarrow> s\<lparr>signalled := True\<rparr>))"

definition run ::
  "(nat \<Rightarrow> world) \<Rightarrow> Config \<Rightarrow> flags \<Rightarrow> (string \<Rightarrow> bool) \<Rightarrow> actor list \<Rightarrow> process \<Rightarrow> process"
where
  "run env config fl canCreate schedule s = foldl (advance env config fl canCreate) s schedule"

text \<open>
  What holds of the machine in every state that a schedule can reach:
  \<^item> the keys of the set are without repetition;
  \<^item> what the watcher has collected, or is about to write, is an initial stretch of the
    keys in the order of their first insertion, and so is each list written to the output
    path; each list written to \<open>failed_domains.txt\<close> is a non-empty initial stretch of
    the failed domains;
  \<^item> once the watcher is past line 473 the output path has been written;
  \<^item> status 0 comes from the return of \<open>main\<close> or from \<open>os.Exit(0)\<close> in the watcher, and
    status 2 from a step of the watcher's \<open>range\<close> that found the assignment of line 580
    in progress.
\<close>

definition consistent :: "flags \<Rightarrow> process \<Rightarrow> bool" where
  "consistent fl s =
     (distinct (finalUrlSet (vars s))
      \<and> (case atWatcher s of
            RangeSet visited finalUrls \<Rightarrow>
              visited \<le> length (finalUrlSet (vars s))
              \<and> range_go finalUrls = take visited (finalUrlSet (vars s))
          | WriteUrls finalUrls \<Rightarrow> prefix (range_go finalUrls) (finalUrlSet (vars s))
          | WriteFailed \<Rightarrow>
              failedDomains (vars s) \<noteq> []
              \<and> (\<exists>xs. (outputFile fl, xs) \<in> set (files s))
          | LenFailed \<Rightarrow> (\<exists>xs. (outputFile fl, xs) \<in> set (files s))
          | Exit \<Rightarrow> (\<exists>xs. (outputFile fl, xs) \<in> set (files s))
          | Receive \<Rightarrow> True)
      \<and> list_all
           (\<lambda>(path, xs).
              (path = outputFile fl \<and> prefix xs (finalUrlSet (vars s)))
              \<or> (path = ''failed_domains.txt'' \<and> xs \<noteq> []
                  \<and> prefix xs (failedDomains (vars s))))
           (files s)
      \<and> (exited s = Some 0 \<longrightarrow> atMain s = Return \<or> atWatcher s = Exit)
      \<and> (exited s = Some 2 \<longrightarrow>
            writing s \<and> (\<exists>visited finalUrls. atWatcher s = RangeSet visited finalUrls)))"

text \<open>
  A stretch of a run in which \<open>main\<close> alone takes steps, from one head of the loop to
  another, leaves the rest of the state as it is: the watcher, the signal, standard
  output, the files and the exit status.
\<close>

definition untouched :: "process \<Rightarrow> process \<Rightarrow> bool" where
  "untouched s s' =
     (lineCount s' = lineCount s \<and> signalled s' = signalled s \<and> atWatcher s' = atWatcher s
      \<and> outputs s' = outputs s \<and> files s' = files s \<and> exited s' = exited s)"


section \<open>Concrete worlds\<close>

text \<open>
  The inputs at which the theorems below are evaluated. \<open>answering f\<close> is a world in
  which every request can be built, \<open>Do\<close> answers by \<open>f\<close>, and every body decodes to
  an empty answer without a further page.
\<close>

definition aRequest :: Request where
  "aRequest = \<lparr>Method = ''GET'', URL = ''https://example.com/'', Header = []\<rparr>"

definition status :: "int \<Rightarrow> Response" where
  "status code = \<lparr>StatusCode = code, Body = []\<rparr>"

definition answering :: "(Request \<Rightarrow> nat \<Rightarrow> result) \<Rightarrow> world" where
  "answering f =
     \<lparr>NewRequestErr = (\<lambda>url. None), Do = f,
      UnmarshalVT = (\<lambda>body. \<lparr>UndetectedUrls = [], ResponseCode = 0\<rparr>),
      UnmarshalOTX = (\<lambda>body. \<lparr>URLList = [], HasNext = False\<rparr>),
      UnmarshalHR = (\<lambda>body. \<lparr>AllURLs = []\<rparr>)\<rparr>"

text \<open>Every attempt fails with an error beside a response of status 500.\<close>

definition serverErrorAlways :: world where
  "serverErrorAlways =
     answering (\<lambda>req k. Failed (Some (status 500)) ''500 Internal Server Error'')"

text \<open>The first attempt fails with an error beside a response of status 404.\<close>

definition notFound :: world where
  "notFound = answering (\<lambda>req k. Failed (Some (status 404)) ''404 Not Found'')"

text \<open>The first attempt fails without a response, every later one succeeds.\<close>

definition timeoutOnce :: world where
  "timeoutOnce =
     answering (\<lambda>req k. if k = 0 then Failed None ''timeout'' else Returned (status 200))"

text \<open>
  A request that fails once with a 429 and then succeeds, in the two ways \<open>Do\<close> can report
  the 429: with an error beside the response, or (as \<open>net/http\<close> reports any status that
  the server sends) as a response with a nil error.
\<close>

definition tooManyRequestsOnce :: world where
  "tooManyRequestsOnce =
     answering (\<lambda>req k. if k = 0 then Failed (Some (status 429)) ''429 Too Many Requests''
                         else Returned (status 200))"

definition tooManyRequestsOnceNoError :: world where
  "tooManyRequestsOnceNoError =
     answering (\<lambda>req k. if k = 0 then Returned (status 429) else Returned (status 200))"

text \<open>Every request is answered with status 200 and an empty body.\<close>

definition noUrls :: world where
  "noUrls = answering (\<lambda>req k. Returned (status 200))"

text \<open>
  The first call of \<open>Do\<close> is answered, every later one times out; every body decodes to
  two URLs and the announcement of a further page.
\<close>

definition secondPageFails :: world where
  "secondPageFails =
     \<lparr>NewRequestErr = (\<lambda>url. None),
      Do = (\<lambda>req k. if k = 0 then Returned (status 200) else Failed None ''timeout''),
      UnmarshalVT = (\<lambda>body. \<lparr>UndetectedUrls = [], ResponseCode = 0\<rparr>),
      UnmarshalOTX = (\<lambda>body. \<lparr>URLList = [''a.com/x'', ''a.com/y''], HasNext = True\<rparr>),
      UnmarshalHR = (\<lambda>body. \<lparr>AllURLs = []\<rparr>)\<rparr>"

text \<open>
  Every request is answered with status 200, and every body decodes to an empty list and
  the announcement of a further page.
\<close>

definition endless :: world where
  "endless =
     \<lparr>NewRequestErr = (\<lambda>url. None),
      Do = (\<lambda>req k. Returned (status 200)),
      UnmarshalVT = (\<lambda>body. \<lparr>UndetectedUrls = [], ResponseCode = 0\<rparr>),
      UnmarshalOTX = (\<lambda>body. \<lparr>URLList = [], HasNext = True\<rparr>),
      UnmarshalHR = (\<lambda>body. \<lparr>AllURLs = []\<rparr>)\<rparr>"

text \<open>
  The end-to-end example of the specification: three input lines, VT and HudsonRock
  excluded; for \<open>example.com\<close> OTX answers with \<open>a.com/x\<close> and Wayback with the two lines
  \<open>a.com/x\<close> and \<open>a.com/y\<close>; for \<open>sub.example.co\<close> both answer without any URL.
\<close>

definition exampleFlags :: flags where
  "exampleFlags =
     \<lparr>outputFile = ''endpoints.txt'', inputFile = ''domains.txt'', silent = False,
      excludeSources = ''vt,hr'', versionFlag = False\<rparr>"

definition noKeys :: Config where
  "noKeys = \<lparr>VirusTotalKeys = [], AlienVaultKeys = [], HudsonRockKeys = []\<rparr>"

definition exampleLines :: "string list" where
  "exampleLines = [''example.com'', ''not a domain!!'', ''sub.example.co'']"

definition firstDomain :: world where
  "firstDomain =
     \<lparr>NewRequestErr = (\<lambda>url. None),
      Do = (\<lambda>req k. Returned
              \<lparr>StatusCode = 200, Body = ''a.com/x'' @ [CHR 0x0A] @ ''a.com/y'' @ [CHR 0x0A]\<rparr>),
      UnmarshalVT = (\<lambda>body. \<lparr>UndetectedUrls = [], ResponseCode = 0\<rparr>),
      UnmarshalOTX = (\<lambda>body. \<lparr>URLList = [''a.com/x''], HasNext = False\<rparr>),
      UnmarshalHR = (\<lambda>body. \<lparr>AllURLs = []\<rparr>)\<rparr>"

definition exampleEnv :: "nat \<Rightarrow> world" where
  "exampleEnv i = (if i = 0 then firstDomain else noUrls)"

definition anyFile :: "string \<Rightarrow> bool" where
  "anyFile path = True"

text \<open>The state of \<open>main\<close> after the three lines of the example, and after the first two.\<close>

definition exampleFinal :: mainState where
  "exampleFinal =
     \<lparr>finalUrlSet = [''a.com/x'', ''a.com/y''], apiKeyIndex = 2,
      failedDomains = [''sub.example.co''],
      printed =
        [foundMessage ''OTX'' (Some [''a.com/x'']),
         foundMessage ''Wayback'' (Some [''a.com/x'', ''a.com/y'']),
         foundMessage ''OTX'' None, foundMessage ''Wayback'' None],
      drained = [Some [''a.com/x''], Some [''a.com/x'', ''a.com/y''], None, None],
      mainSlept = [20]\<rparr>"





text \<open>
  Three ends of the example: run to completion, not silent and silent, and interrupted
  after two lines in silent mode.
\<close>

definition exampleOutcome :: outcome where
  "exampleOutcome =
     \<lparr>exitCode = 0, stdout = [Banner],
      written =
        [(''failed_domains.txt'', [''sub.example.co'']),
         (''endpoints.txt'', [''a.com/x'', ''a.com/y''])],
      final = exampleFinal\<rparr>"



text \<open>
  One schedule for the goroutines of \<open>example.com\<close> with Wayback alone enabled: \<open>main\<close>
  starts the querier, the querier sends its log message, the consumer prints it, the
  querier sends its result and returns, \<open>main\<close> closes the channels, the consumer
  returns, \<open>main\<close> drains the results channel and decides.
\<close>

definition waybackScripts :: "action list list" where
  "waybackScripts = [script (getWaybackURLs noUrls ''example.com'' False idle)]"

definition aSchedule :: "pid list" where
  "aSchedule =
     [Main, Main, Querier 0, Consumer, Querier 0, Querier 0, Main, Main, Main, Main,
      Consumer, Main, Main, Main, Main]"

text \<open>
  Two schedules for the example with an interrupt. In both \<open>main\<close> runs alone at first.
  In \<open>duringSleep\<close> it takes fifteen steps, through the whole iteration for
  \<open>example.com\<close> up to its delay; then the signal arrives and the watcher takes seven
  steps. In \<open>duringAssignment\<close> it takes ten steps, which bring it inside the assignment
  \<open>finalUrlSet[u] = struct{}{}\<close> for \<open>a.com/y\<close>, with \<open>a.com/x\<close> in the set; then the
  signal arrives and the watcher takes two steps, the receive and the first step of its
  \<open>range\<close>.
\<close>

definition duringSleep :: "actor list" where
  "duringSleep = replicate 15 Driver @ [Signal] @ replicate 7 Watcher"

definition duringAssignment :: "actor list" where
  "duringAssignment = replicate 10 Driver @ [Signal, Watcher, Watcher]"

text \<open>The states in which the two schedules end.\<close>

definition sleepEnd :: process where
  "sleepEnd =
     \<lparr>toDo = [''not a domain!!'', ''sub.example.co''], lineNo = 1, lineCount = 3,
      vars =
        \<lparr>finalUrlSet = [''a.com/x'', ''a.com/y''], apiKeyIndex = 1, failedDomains = [],
         printed =
           [foundMessage ''OTX'' (Some [''a.com/x'']),
            foundMessage ''Wayback'' (Some [''a.com/x'', ''a.com/y''])],
         drained = [Some [''a.com/x''], Some [''a.com/x'', ''a.com/y'']],
         mainSlept = [20]\<rparr>,
      atMain = LoopHead, curDomain = ''example.com'', curCount = 2, curSuccess = True,
      signalled = True, atWatcher = Exit, outputs = [Banner],
      files = [(''endpoints.txt'', [''a.com/x'', ''a.com/y''])], exited = Some 0\<rparr>"

definition assignmentEnd :: process where
  "assignmentEnd =
     \<lparr>toDo = [''not a domain!!'', ''sub.example.co''], lineNo = 0, lineCount = 3,
      vars =
        \<lparr>finalUrlSet = [''a.com/x''], apiKeyIndex = 0, failedDomains = [],
         printed =
           [foundMessage ''OTX'' (Some [''a.com/x'']),
            foundMessage ''Wayback'' (Some [''a.com/x'', ''a.com/y''])],
         drained = [Some [''a.com/x''], Some [''a.com/x'', ''a.com/y'']],
         mainSlept = []\<rparr>,
      atMain = MapAssign [] [] ''a.com/y'', curDomain = ''example.com'', curCount = 2,
      curSuccess = True, signalled = True, atWatcher = RangeSet 0 None, outputs = [Banner],
      files = [], exited = Some 2\<rparr>"


section \<open>Domain cleaning and validation\<close>

subsection \<open>The matcher decides the language\<close>

lemma nullable_lang: "nullable r \<longleftrightarrow> [] \<in> lang r"
  by (induction r) (auto simp: conc_def intro: star.star_nil)

lemma lang_seq: "lang (seq r s) = conc (lang r) (lang s)"
  by (cases r) (auto simp: conc_def)

lemma lang_alt: "lang (alt r s) = lang r \<union> lang s"
  by (cases r; cases s) auto

lemma cons_in_conc:
  "c # w \<in> conc A B \<longleftrightarrow>
     ([] \<in> A \<and> c # w \<in> B) \<or> (\<exists>u v. w = u @ v \<and> c # u \<in> A \<and> v \<in> B)"
proof
  assume "c # w \<in> conc A B"
  then obtain u v where uv: "c # w = u @ v" "u \<in> A" "v \<in> B"
    by (auto simp: conc_def)
  show "([] \<in> A \<and> c # w \<in> B) \<or> (\<exists>u v. w = u @ v \<and> c # u \<in> A \<and> v \<in> B)"
  proof (cases u)
    case Nil
    with uv show ?thesis by simp
  next
    case (Cons a u')
    with uv have "w = u' @ v" "c # u' \<in> A" by auto
    with uv show ?thesis by blast
  qed
next
  assume "([] \<in> A \<and> c # w \<in> B) \<or> (\<exists>u v. w = u @ v \<and> c # u \<in> A \<and> v \<in> B)"
  then show "c # w \<in> conc A B"
  proof
    assume "[] \<in> A \<and> c # w \<in> B"
    then have "[] @ (c # w) \<in> conc A B" unfolding conc_def by blast
    then show ?thesis by simp
  next
    assume "\<exists>u v. w = u @ v \<and> c # u \<in> A \<and> v \<in> B"
    then obtain u v where "w = u @ v" "c # u \<in> A" "v \<in> B" by blast
    then have "(c # u) @ v \<in> conc A B" unfolding conc_def by blast
    with \<open>w = u @ v\<close> show ?thesis by simp
  qed
qed

lemma star_cons_split:
  assumes "x \<in> star A" and "x = c # w"
  shows "\<exists>u v. w = u @ v \<and> c # u \<in> A \<and> v \<in> star A"
  using assms
proof (induction arbitrary: w rule: star.induct)
  case star_nil
  then show ?case by simp
next
  case (star_step u v)
  show ?case
  proof (cases u)
    case Nil
    with star_step show ?thesis by simp
  next
    case (Cons a u')
    with star_step.prems have "a = c" "w = u' @ v" by auto
    with Cons star_step.hyps show ?thesis by blast
  qed
qed

lemma cons_in_star:
  "c # w \<in> star A \<longleftrightarrow> (\<exists>u v. w = u @ v \<and> c # u \<in> A \<and> v \<in> star A)"
proof
  assume "c # w \<in> star A"
  then show "\<exists>u v. w = u @ v \<and> c # u \<in> A \<and> v \<in> star A"
    using star_cons_split by blast
next
  assume "\<exists>u v. w = u @ v \<and> c # u \<in> A \<and> v \<in> star A"
  then obtain u v where "w = u @ v" "c # u \<in> A" "v \<in> star A" by blast
  then have "(c # u) @ v \<in> star A" by (blast intro: star.star_step)
  with \<open>w = u @ v\<close> show "c # w \<in> star A" by simp
qed

lemma conc_deriv_left:
  "conc {w. c # w \<in> A} B = {w. \<exists>u v. w = u @ v \<and> c # u \<in> A \<and> v \<in> B}"
  by (auto simp: conc_def)

lemma lang_deriv: "lang (deriv c r) = {w. c # w \<in> lang r}"
proof (induction r)
  case (RSeq r s)
  have "lang (deriv c (RSeq r s)) =
          conc (lang (deriv c r)) (lang s) \<union> (if nullable r then lang (deriv c s) else {})"
    by (simp add: lang_seq lang_alt)
  also have "\<dots> = {w. \<exists>u v. w = u @ v \<and> c # u \<in> lang r \<and> v \<in> lang s}
                 \<union> (if [] \<in> lang r then {w. c # w \<in> lang s} else {})"
    by (simp only: RSeq.IH conc_deriv_left nullable_lang)
  also have "\<dots> = {w. c # w \<in> conc (lang r) (lang s)}"
    by (auto simp: cons_in_conc)
  finally show ?case by simp
next
  case (RStar r)
  have "lang (deriv c (RStar r)) = conc (lang (deriv c r)) (star (lang r))"
    by (simp add: lang_seq)
  also have "\<dots> = {w. \<exists>u v. w = u @ v \<and> c # u \<in> lang r \<and> v \<in> star (lang r)}"
    by (simp only: RStar.IH conc_deriv_left)
  also have "\<dots> = {w. c # w \<in> star (lang r)}"
    by (simp add: cons_in_star)
  finally show ?case by simp
qed (auto simp: lang_alt)

lemma matches_lang: "matches r s \<longleftrightarrow> s \<in> lang r"
  by (induction s arbitrary: r) (simp_all add: nullable_lang lang_deriv)

subsection \<open>The shape of a valid domain\<close>

lemma in_conc: "w \<in> conc A B \<longleftrightarrow> (\<exists>u v. w = u @ v \<and> u \<in> A \<and> v \<in> B)"
  by (auto simp: conc_def)

lemma label_ends_with_dot:
  assumes "w \<in> lang labelRegex"
  shows "\<exists>p. w = p @ ''.''"
proof -
  from assms obtain u v x where "w = u @ v @ x" "x \<in> lang (RClass dotChar)"
    by (auto simp: labelRegex_def in_conc)
  then have "w = (u @ v) @ ''.''" by (auto simp: dotChar_def)
  then show ?thesis by blast
qed

lemma star_ends_with_dot:
  assumes "w \<in> star A" and "\<And>u. u \<in> A \<Longrightarrow> \<exists>p. u = p @ ''.''"
  shows "w = [] \<or> (\<exists>p. w = p @ ''.'')"
  using assms(1)
proof (induction rule: star.induct)
  case star_nil
  then show ?case by simp
next
  case (star_step u v)
  from assms(2)[OF star_step.hyps(1)] obtain p where p: "u = p @ ''.''" by blast
  from star_step.IH show ?case
  proof
    assume "v = []"
    with p show ?thesis by simp
  next
    assume "\<exists>q. v = q @ ''.''"
    then obtain q where "v = q @ ''.''" by blast
    then have "u @ v = (u @ q) @ ''.''" by simp
    then show ?thesis by blast
  qed
qed

lemma labels_end_with_dot:
  assumes "w \<in> lang (RPlus labelRegex)"
  shows "\<exists>p. w = p @ ''.''"
proof -
  from assms obtain u v where uv: "w = u @ v" "u \<in> lang labelRegex" "v \<in> star (lang labelRegex)"
    by (auto simp: RPlus_def in_conc)
  from label_ends_with_dot[OF uv(2)] obtain p where p: "u = p @ ''.''" by blast
  from star_ends_with_dot[OF uv(3)] label_ends_with_dot
  have "v = [] \<or> (\<exists>q. v = q @ ''.'')" by blast
  then show ?thesis
  proof
    assume "v = []"
    with uv p show ?thesis by simp
  next
    assume "\<exists>q. v = q @ ''.''"
    then obtain q where "v = q @ ''.''" by blast
    with uv have "w = (u @ q) @ ''.''" by simp
    then show ?thesis by blast
  qed
qed

lemma domainChar_ascii:
  "\<not> domainChar (CHR 0xC5)" "\<not> domainChar (CHR 0xE2)"
  by (simp_all add: domainChar_def lowerChars_def upperChars_def digitChars_def)

lemma lang_bytes: "lang (bytes s) = {s}"
  by (induction s) (auto simp: conc_def)

lemma lang_alpha:
  "lang alpha = {[c] | c. alphaChar c} \<union> {[CHR 0xC5, CHR 0xBF], [CHR 0xE2, CHR 0x84, CHR 0xAA]}"
  unfolding alpha_def folded_def lang.simps lang_bytes by blast

lemma alpha_word:
  assumes "u \<in> lang alpha" and "list_all domainChar u"
  shows "\<exists>c. u = [c] \<and> alphaChar c"
proof -
  from assms(1) consider (ascii) c where "u = [c]" "alphaChar c"
    | (s) "u = [CHR 0xC5, CHR 0xBF]" | (k) "u = [CHR 0xE2, CHR 0x84, CHR 0xAA]"
    unfolding lang_alpha by blast
  then show ?thesis
  proof cases
    case ascii
    then show ?thesis by blast
  next
    case s
    with assms(2) domainChar_ascii show ?thesis by simp
  next
    case k
    with assms(2) domainChar_ascii show ?thesis by simp
  qed
qed

lemma star_alpha:
  assumes "w \<in> star (lang alpha)" and "list_all domainChar w"
  shows "list_all alphaChar w"
  using assms
proof (induction rule: star.induct)
  case star_nil
  then show ?case by simp
next
  case (star_step u v)
  from star_step.prems have u: "list_all domainChar u" and v: "list_all domainChar v"
    by simp_all
  from alpha_word [OF star_step.hyps(1) u] star_step.IH [OF v] show ?case by auto
qed

lemma tld_alpha:
  assumes "w \<in> lang (RAtLeast2 alpha)" and "list_all domainChar w"
  shows "2 \<le> length w \<and> list_all alphaChar w"
proof -
  from assms(1) obtain a b v where w: "w = a @ b @ v" and a: "a \<in> lang alpha"
    and b: "b \<in> lang alpha" and v: "v \<in> star (lang alpha)"
    by (auto simp: RAtLeast2_def in_conc)
  from w assms(2) have "list_all domainChar a" "list_all domainChar b" "list_all domainChar v"
    by simp_all
  with alpha_word [OF a] alpha_word [OF b] star_alpha [OF v] w show ?thesis by auto
qed

lemma valid_domain_shape:
  assumes "isValidDomain d" and "list_all domainChar d"
  shows "\<exists>pre lab. d = pre @ ''.'' @ lab \<and> 2 \<le> length lab \<and> list_all alphaChar lab"
proof -
  from assms(1) have "d \<in> lang domainRegex"
    by (simp add: isValidDomain_def matches_lang)
  then obtain u lab where ul: "d = u @ lab" "u \<in> lang (RPlus labelRegex)"
      "lab \<in> lang (RAtLeast2 alpha)"
    by (auto simp: domainRegex_def in_conc)
  from ul(1) assms(2) have "list_all domainChar lab" by simp
  from labels_end_with_dot [OF ul(2)] obtain pre where "u = pre @ ''.''" by blast
  with ul(1) tld_alpha [OF ul(3) \<open>list_all domainChar lab\<close>] show ?thesis by auto
qed

lemma alpha_not_dot: "alphaChar c \<Longrightarrow> c \<noteq> CHR ''.''"
  by (auto simp: alphaChar_def lowerChars_def upperChars_def)

lemma finalLabel_append:
  assumes "list_all alphaChar lab"
  shows "finalLabel (pre @ CHR ''.'' # lab) = Some lab"
proof -
  from assms have "\<forall>c \<in> set (rev lab). c \<noteq> CHR ''.''"
    by (auto simp: list_all_iff dest: alpha_not_dot)
  then have "takeWhile (\<lambda>c. c \<noteq> CHR ''.'') (rev lab @ CHR ''.'' # rev pre) = rev lab"
    by (subst takeWhile_append2) auto
  then show ?thesis by (simp add: finalLabel_def)
qed

lemma valid_has_final_label:
  assumes "isValidDomain d" and "list_all domainChar d"
  shows "hasAlphaFinalLabel d"
proof -
  from valid_domain_shape [OF assms] obtain pre lab where
    "d = pre @ ''.'' @ lab" "2 \<le> length lab" "list_all alphaChar lab" by blast
  then show ?thesis by (simp add: hasAlphaFinalLabel_def finalLabel_append)
qed

lemma space_rune_edges: "list_all (\<lambda>r. r \<noteq> [] \<and> \<not> domainChar (hd r) \<and> \<not> domainChar (last r)) spaceRunes"
  by code_simp

lemma spaceAtStart_domainChar:
  assumes "domainChar c"
  shows "spaceAtStart (c # cs) = 0"
proof -
  have "\<not> (\<exists>r \<in> set spaceRunes. take (length r) (c # cs) = r)"
  proof
    assume "\<exists>r \<in> set spaceRunes. take (length r) (c # cs) = r"
    then obtain r where r: "r \<in> set spaceRunes" "take (length r) (c # cs) = r" by blast
    from space_rune_edges r(1) have ne: "r \<noteq> []" and nd: "\<not> domainChar (hd r)"
      by (auto simp: list_all_iff)
    from ne r(2) have "hd r = c" by (cases r) auto
    with nd assms show False by simp
  qed
  then have "find (\<lambda>r. take (length r) (c # cs) = r) spaceRunes = None"
    by (simp add: find_None_iff)
  then show ?thesis by (simp add: spaceAtStart_def)
qed

lemma spaceAtEnd_domainChar:
  assumes "domainChar c"
  shows "spaceAtEnd (cs @ [c]) = 0"
proof -
  have "\<not> (\<exists>r \<in> set spaceRunes. length r \<le> length (cs @ [c])
          \<and> drop (length (cs @ [c]) - length r) (cs @ [c]) = r)"
  proof
    assume "\<exists>r \<in> set spaceRunes. length r \<le> length (cs @ [c])
          \<and> drop (length (cs @ [c]) - length r) (cs @ [c]) = r"
    then obtain r where r: "r \<in> set spaceRunes" "length r \<le> length (cs @ [c])"
      "drop (length (cs @ [c]) - length r) (cs @ [c]) = r" by blast
    from space_rune_edges r(1) have ne: "r \<noteq> []" and nd: "\<not> domainChar (last r)"
      by (auto simp: list_all_iff)
    from ne r(2) have "length (cs @ [c]) - length r < length (cs @ [c])" by (cases r) auto
    then have "last (drop (length (cs @ [c]) - length r) (cs @ [c])) = last (cs @ [c])"
      by (rule last_drop)
    with r(3) have "last r = c" by simp
    with nd assms show False by simp
  qed
  then have "find (\<lambda>r. length r \<le> length (cs @ [c])
          \<and> drop (length (cs @ [c]) - length r) (cs @ [c]) = r) spaceRunes = None"
    by (simp add: find_None_iff)
  then show ?thesis by (simp add: spaceAtEnd_def)
qed

lemma TrimSpace_domainChar:
  assumes "list_all domainChar s"
  shows "TrimSpace s = s"
proof (cases s rule: rev_cases)
  case Nil
  then show ?thesis
    by (simp add: TrimSpace_def trimLeft.simps trimRight.simps spaceAtStart_def spaceAtEnd_def
        spaceRunes_def)
next
  case (snoc cs c)
  with assms have c: "domainChar c" by simp
  from snoc have "s \<noteq> []" by simp
  then obtain d ds where ds: "s = d # ds" by (cases s) auto
  with assms have "domainChar d" by simp
  with ds have "spaceAtStart s = 0" by (simp add: spaceAtStart_domainChar)
  then have l: "trimLeft s = s" by (simp add: trimLeft.simps)
  from c snoc have "spaceAtEnd s = 0" by (simp add: spaceAtEnd_domainChar)
  then have "trimRight s = s" by (simp add: trimRight.simps)
  with l show ?thesis by (simp add: TrimSpace_def)
qed

lemma cleanDomainLine_filter: "cleanDomainLine x = filter domainChar x"
  by (simp add: cleanDomainLine_def TrimSpace_domainChar list_all_iff)

subsection \<open>Claim C9\<close>

text \<open>
  C9, as stated, fails: the raw line \<open>example.com/\<close> has the final label \<open>com/\<close>,
  which is not alphabetic, yet cleaning deletes the slash and the cleaned line
  \<open>example.com\<close> is a valid domain.
\<close>

theorem C9_counterexample:
  "\<not> hasAlphaFinalLabel ''example.com/''
   \<and> isValidDomain (cleanDomainLine ''example.com/'')"
  by code_simp

text \<open>
  C9 (amended): for every input line \<open>x\<close>, \<open>cleanDomainLine x\<close> contains no character
  outside \<open>[A-Za-z0-9.-]\<close>; and whenever the cleaned line (rather than the raw line) lacks
  a dot followed by an alphabetic final label of length at least 2, \<open>isValidDomain\<close>
  rejects the cleaned line.
\<close>

theorem C9_clean_then_valid:
  "list_all domainChar (cleanDomainLine x) \<and>
   (\<not> hasAlphaFinalLabel (cleanDomainLine x) \<longrightarrow> \<not> isValidDomain (cleanDomainLine x))"
proof -
  have c: "list_all domainChar (cleanDomainLine x)"
    by (simp add: cleanDomainLine_filter list_all_iff)
  with valid_has_final_label [of "cleanDomainLine x"] show ?thesis by blast
qed

text \<open>The amended C9 at the line \<open>not a domain!!\<close>, which cleans to \<open>notadomain\<close>.\<close>

theorem C9_witness:
  "\<not> hasAlphaFinalLabel (cleanDomainLine ''not a domain!!'') \<and>
   \<not> isValidDomain (cleanDomainLine ''not a domain!!'')"
proof -
  have h: "\<not> hasAlphaFinalLabel (cleanDomainLine ''not a domain!!'')" by code_simp
  with C9_clean_then_valid [of "''not a domain!!''"] show ?thesis by blast
qed

section \<open>The retrying fetcher\<close>

lemma retry_returned:
  assumes "i < retryAttempts" and "Do w req (doCalls g) = Returned r"
  shows "retryLoop w req q src i err g = (Returned r, g\<lparr>doCalls := Suc (doCalls g)\<rparr>)"
  using assms by (subst retryLoop.simps) simp

lemma retry_client_error:
  assumes "i < retryAttempts" and "Do w req (doCalls g) = Failed r e" and "clientError r"
  shows "retryLoop w req q src i err g =
           (Failed r e,
            sendLog q (clientErrorMessage src r)
              (sendLog q (retryWarning src i e) (g\<lparr>doCalls := Suc (doCalls g)\<rparr>)))"
  using assms by (subst retryLoop.simps) simp

lemma retry_again:
  assumes "i < retryAttempts" and "Do w req (doCalls g) = Failed r e" and "\<not> clientError r"
  shows "retryLoop w req q src i err g =
           retryLoop w req q src (Suc i) (Some e)
             (Sleep retryDelay (sendLog q (retryWarning src i e) (g\<lparr>doCalls := Suc (doCalls g)\<rparr>)))"
  using assms by (subst retryLoop.simps) simp

lemma retry_exhausted:
  assumes "\<not> i < retryAttempts"
  shows "retryLoop w req q src i err g = (Failed None (exhausted err), g)"
  using assms by (subst retryLoop.simps) simp

lemma doCalls_sendLog [simp]: "doCalls (sendLog q m g) = doCalls g"
  and slept_sendLog [simp]: "slept (sendLog q m g) = slept g"
  and ch_sendLog [simp]: "ch (sendLog q m g) = ch g"
  and wgDone_sendLog [simp]: "wgDone (sendLog q m g) = wgDone g"
  by (simp_all add: sendLog_def)

lemma doCalls_Sleep [simp]: "doCalls (Sleep d g) = doCalls g"
  and slept_Sleep [simp]: "slept (Sleep d g) = slept g @ [d]"
  and ch_Sleep [simp]: "ch (Sleep d g) = ch g"
  and wgDone_Sleep [simp]: "wgDone (Sleep d g) = wgDone g"
  by (simp_all add: Sleep_def)

lemma three_failures:
  assumes "Do w req (doCalls g) = Failed r0 e0" "\<not> clientError r0"
    and "Do w req (doCalls g + 1) = Failed r1 e1" "\<not> clientError r1"
    and "Do w req (doCalls g + 2) = Failed r2 e2" "\<not> clientError r2"
  shows "makeRequestWithRetry w req q src g =
           (Failed None (exhausted (Some e2)),
            Sleep retryDelay (sendLog q (retryWarning src 2 e2)
              (Sleep retryDelay (sendLog q (retryWarning src 1 e1)
                (Sleep retryDelay (sendLog q (retryWarning src 0 e0)
                  (g\<lparr>doCalls := Suc (doCalls g)\<rparr>))
                 \<lparr>doCalls := Suc (Suc (doCalls g))\<rparr>))
               \<lparr>doCalls := Suc (Suc (Suc (doCalls g)))\<rparr>)))"
proof -
  let ?g1 = "Sleep retryDelay (sendLog q (retryWarning src 0 e0) (g\<lparr>doCalls := Suc (doCalls g)\<rparr>))"
  let ?g2 = "Sleep retryDelay (sendLog q (retryWarning src (Suc 0) e1) (?g1\<lparr>doCalls := Suc (doCalls ?g1)\<rparr>))"
  let ?g3 = "Sleep retryDelay (sendLog q (retryWarning src (Suc (Suc 0)) e2) (?g2\<lparr>doCalls := Suc (doCalls ?g2)\<rparr>))"
  have s1: "retryLoop w req q src 0 None g = retryLoop w req q src (Suc 0) (Some e0) ?g1"
    by (rule retry_again [where r = r0]) (use assms(1,2) in \<open>simp_all add: retryAttempts_def\<close>)
  have s2: "retryLoop w req q src (Suc 0) (Some e0) ?g1
              = retryLoop w req q src (Suc (Suc 0)) (Some e1) ?g2"
    by (rule retry_again [where r = r1]) (use assms(3,4) in \<open>simp_all add: retryAttempts_def\<close>)
  have s3: "retryLoop w req q src (Suc (Suc 0)) (Some e1) ?g2
              = retryLoop w req q src (Suc (Suc (Suc 0))) (Some e2) ?g3"
    by (rule retry_again [where r = r2])
       (use assms(5,6) in \<open>simp_all add: retryAttempts_def numeral_2_eq_2\<close>)
  have s4: "retryLoop w req q src (Suc (Suc (Suc 0))) (Some e2) ?g3
              = (Failed None (exhausted (Some e2)), ?g3)"
    by (rule retry_exhausted) (simp add: retryAttempts_def)
  have "makeRequestWithRetry w req q src g = (Failed None (exhausted (Some e2)), ?g3)"
    by (simp only: makeRequestWithRetry_def s1 s2 s3 s4)
  then show ?thesis by (simp add: numeral_2_eq_2)
qed


lemma exhausted_Some: "exhausted (Some e) = ''request failed after 3 attempts: '' @ e"
  by (simp add: exhausted_def retryAttempts_def showNat.simps digitChars_def)

lemma one_failure_then_returned:
  assumes "Do w req (doCalls g) = Failed r0 e0" "\<not> clientError r0"
    and "Do w req (doCalls g + 1) = Returned r1"
  shows "makeRequestWithRetry w req q src g =
           (Returned r1,
            Sleep retryDelay (sendLog q (retryWarning src 0 e0)
              (g\<lparr>doCalls := Suc (doCalls g)\<rparr>)) \<lparr>doCalls := Suc (Suc (doCalls g))\<rparr>)"
proof -
  let ?g1 = "Sleep retryDelay (sendLog q (retryWarning src 0 e0) (g\<lparr>doCalls := Suc (doCalls g)\<rparr>))"
  have s1: "retryLoop w req q src 0 None g = retryLoop w req q src (Suc 0) (Some e0) ?g1"
    by (rule retry_again [where r = r0]) (use assms(1,2) in \<open>simp_all add: retryAttempts_def\<close>)
  have s2: "retryLoop w req q src (Suc 0) (Some e0) ?g1
              = (Returned r1, ?g1\<lparr>doCalls := Suc (doCalls ?g1)\<rparr>)"
    by (rule retry_returned) (use assms(3) in \<open>simp_all add: retryAttempts_def\<close>)
  show ?thesis by (simp add: makeRequestWithRetry_def s1 s2)
qed

subsection \<open>Claim C2\<close>

text \<open>
  C2, as stated, fails in its last part: a request whose first attempt fails with a 429
  is not tried again. When \<open>Do\<close> reports the 429 as an error beside the response, the
  status is in 400 to 499 and the response and the error are returned after one attempt;
  when \<open>Do\<close> reports it as a response with a nil error, that response is returned after
  one attempt. In neither case is a second attempt made.
\<close>

theorem C2_counterexample:
  "fst (makeRequestWithRetry tooManyRequestsOnce aRequest False ''VT'' idle)
     = Failed (Some (status 429)) ''429 Too Many Requests''
   \<and> doCalls (snd (makeRequestWithRetry tooManyRequestsOnce aRequest False ''VT'' idle)) = 1
   \<and> fst (makeRequestWithRetry tooManyRequestsOnceNoError aRequest False ''VT'' idle)
     = Returned (status 429)
   \<and> doCalls (snd (makeRequestWithRetry tooManyRequestsOnceNoError aRequest False ''VT'' idle)) = 1"
  by code_simp

text \<open>
  C2 (amended). An attempt fails when \<open>Do\<close> returns an error. (1) When each of three
  attempts in a row fails, with no response or with a response whose status is outside 400
  to 499 (a status of the 500 class, for one), \<open>makeRequestWithRetry\<close> makes exactly 3
  attempts, sleeps 5 seconds after each of them and reports the failure
  \<open>request failed after 3 attempts\<close> around the last error. (2) When the first attempt
  fails with a response whose status is in 400 to 499 (429 included), it makes exactly 1
  attempt and returns that response and that error as they are, without sleeping. (3) When
  the first attempt fails in the way of (1) and the second returns a response with a nil
  error, it returns that response after 2 attempts and one sleep of 5 seconds.
\<close>

theorem C2_retry_budget:
  "(Do w req (doCalls g) = Failed r0 e0 \<and> \<not> clientError r0 \<and>
    Do w req (doCalls g + 1) = Failed r1 e1 \<and> \<not> clientError r1 \<and>
    Do w req (doCalls g + 2) = Failed r2 e2 \<and> \<not> clientError r2 \<longrightarrow>
      fst (makeRequestWithRetry w req q src g)
        = Failed None (''request failed after 3 attempts: '' @ e2) \<and>
      doCalls (snd (makeRequestWithRetry w req q src g)) = doCalls g + 3 \<and>
      slept (snd (makeRequestWithRetry w req q src g)) = slept g @ [5, 5, 5])
   \<and>
   (Do w' req' (doCalls g') = Failed (Some r) e \<and> 400 \<le> StatusCode r \<and> StatusCode r < 500 \<longrightarrow>
      fst (makeRequestWithRetry w' req' q' src' g') = Failed (Some r) e \<and>
      doCalls (snd (makeRequestWithRetry w' req' q' src' g')) = doCalls g' + 1 \<and>
      slept (snd (makeRequestWithRetry w' req' q' src' g')) = slept g')
   \<and>
   (Do w'' req'' (doCalls g'') = Failed r3 e3 \<and> \<not> clientError r3 \<and>
    Do w'' req'' (doCalls g'' + 1) = Returned r4 \<longrightarrow>
      fst (makeRequestWithRetry w'' req'' q'' src'' g'') = Returned r4 \<and>
      doCalls (snd (makeRequestWithRetry w'' req'' q'' src'' g'')) = doCalls g'' + 2 \<and>
      slept (snd (makeRequestWithRetry w'' req'' q'' src'' g'')) = slept g'' @ [5])"
proof (intro conjI impI)
  assume a: "Do w req (doCalls g) = Failed r0 e0 \<and> \<not> clientError r0 \<and>
    Do w req (doCalls g + 1) = Failed r1 e1 \<and> \<not> clientError r1 \<and>
    Do w req (doCalls g + 2) = Failed r2 e2 \<and> \<not> clientError r2"
  note eq = three_failures [of w req g r0 e0 r1 e1 r2 e2 q src]
  from a show "fst (makeRequestWithRetry w req q src g)
        = Failed None (''request failed after 3 attempts: '' @ e2)"
    by (simp add: eq exhausted_Some)
  from a show "doCalls (snd (makeRequestWithRetry w req q src g)) = doCalls g + 3"
    by (simp add: eq)
  from a show "slept (snd (makeRequestWithRetry w req q src g)) = slept g @ [5, 5, 5]"
    by (simp add: eq retryDelay_def)
next
  assume b: "Do w' req' (doCalls g') = Failed (Some r) e \<and> 400 \<le> StatusCode r \<and> StatusCode r < 500"
  then have ce: "clientError (Some r)" by (simp add: clientError_def)
  have eq: "makeRequestWithRetry w' req' q' src' g' =
          (Failed (Some r) e,
            sendLog q' (clientErrorMessage src' (Some r))
              (sendLog q' (retryWarning src' 0 e) (g'\<lparr>doCalls := Suc (doCalls g')\<rparr>)))"
    unfolding makeRequestWithRetry_def
    by (rule retry_client_error) (use b ce in \<open>simp_all add: retryAttempts_def\<close>)
  show "fst (makeRequestWithRetry w' req' q' src' g') = Failed (Some r) e"
    by (simp add: eq)
  show "doCalls (snd (makeRequestWithRetry w' req' q' src' g')) = doCalls g' + 1"
    by (simp add: eq)
  show "slept (snd (makeRequestWithRetry w' req' q' src' g')) = slept g'"
    by (simp add: eq)
next
  assume c: "Do w'' req'' (doCalls g'') = Failed r3 e3 \<and> \<not> clientError r3 \<and>
    Do w'' req'' (doCalls g'' + 1) = Returned r4"
  note eq = one_failure_then_returned [of w'' req'' g'' r3 e3 r4 q'' src'']
  from c show "fst (makeRequestWithRetry w'' req'' q'' src'' g'') = Returned r4"
    by (simp add: eq)
  from c show "doCalls (snd (makeRequestWithRetry w'' req'' q'' src'' g'')) = doCalls g'' + 2"
    by (simp add: eq)
  from c show "slept (snd (makeRequestWithRetry w'' req'' q'' src'' g'')) = slept g'' @ [5]"
    by (simp add: eq retryDelay_def)
qed

text \<open>
  The amended C2 at three worlds: every attempt fails beside a status 500; the first
  attempt fails beside a status 404; the first attempt times out and the second succeeds.
\<close>

theorem C2_witness:
  "fst (makeRequestWithRetry serverErrorAlways aRequest False ''VT'' idle)
     = Failed None ''request failed after 3 attempts: 500 Internal Server Error''
   \<and> doCalls (snd (makeRequestWithRetry serverErrorAlways aRequest False ''VT'' idle)) = 3
   \<and> slept (snd (makeRequestWithRetry serverErrorAlways aRequest False ''VT'' idle)) = [5, 5, 5]
   \<and> fst (makeRequestWithRetry notFound aRequest False ''VT'' idle)
     = Failed (Some (status 404)) ''404 Not Found''
   \<and> doCalls (snd (makeRequestWithRetry notFound aRequest False ''VT'' idle)) = 1
   \<and> slept (snd (makeRequestWithRetry notFound aRequest False ''VT'' idle)) = []
   \<and> fst (makeRequestWithRetry timeoutOnce aRequest False ''VT'' idle) = Returned (status 200)
   \<and> doCalls (snd (makeRequestWithRetry timeoutOnce aRequest False ''VT'' idle)) = 2
   \<and> slept (snd (makeRequestWithRetry timeoutOnce aRequest False ''VT'' idle)) = [5]"
  using C2_retry_budget
    [where w = serverErrorAlways and req = aRequest and g = idle and q = False and src = "''VT''"
       and ?r0.0 = "Some (status 500)" and ?e0.0 = "''500 Internal Server Error''"
       and ?r1.0 = "Some (status 500)" and ?e1.0 = "''500 Internal Server Error''"
       and ?r2.0 = "Some (status 500)" and ?e2.0 = "''500 Internal Server Error''"
       and w' = notFound and req' = aRequest and g' = idle and q' = False and src' = "''VT''"
       and r = "status 404" and e = "''404 Not Found''"
       and w'' = timeoutOnce and req'' = aRequest and g'' = idle and q'' = False
       and src'' = "''VT''" and ?r3.0 = None and ?e3.0 = "''timeout''" and ?r4.0 = "status 200"]
  by (simp add: serverErrorAlways_def notFound_def timeoutOnce_def answering_def idle_def
        clientError_def status_def)

section \<open>The queriers\<close>

subsection \<open>What a querier does to the channels and to the wait group\<close>

lemma send_fields [simp]:
  "ch (send u g) = ch g @ [u]" "wgDone (send u g) = wgDone g" "logChan (send u g) = logChan g"
  "doCalls (send u g) = doCalls g" "slept (send u g) = slept g"
  by (simp_all add: send_def)

lemma Done_fields [simp]:
  "ch (Done g) = ch g" "wgDone (Done g) = Suc (wgDone g)" "logChan (Done g) = logChan g"
  "doCalls (Done g) = doCalls g" "slept (Done g) = slept g"
  by (simp_all add: Done_def)

lemma retryLoop_channels:
  "ch (snd (retryLoop w req q src i err g)) = ch g \<and>
   wgDone (snd (retryLoop w req q src i err g)) = wgDone g"
proof (induction w req q src i err g rule: retryLoop.induct)
  case (1 w req q src i err g)
  show ?case
  proof (cases "i < retryAttempts")
    case False
    then show ?thesis by (simp add: retry_exhausted)
  next
    case True
    show ?thesis
    proof (cases "Do w req (doCalls g)")
      case (Returned r)
      with True show ?thesis by (simp add: retry_returned)
    next
      case (Failed r e)
      show ?thesis
      proof (cases "clientError r")
        case True
        with \<open>i < retryAttempts\<close> Failed show ?thesis by (simp add: retry_client_error)
      next
        case False
        with \<open>i < retryAttempts\<close> Failed "1.IH" [of r e] show ?thesis
          by (simp add: retry_again)
      qed
    qed
  qed
qed

lemma makeRequestWithRetry_channels:
  assumes "makeRequestWithRetry w req q src g = (res, g')"
  shows "ch g' = ch g \<and> wgDone g' = wgDone g"
  using retryLoop_channels [of w req q src 0 None g] assms
  by (simp add: makeRequestWithRetry_def)

lemma vt_sends:
  "wgDone (getVirusTotalURLs w d keys idx q g) = Suc (wgDone g) \<and>
   (if keys = [] then ch (getVirusTotalURLs w d keys idx q g) = ch g
    else \<exists>m. ch (getVirusTotalURLs w d keys idx q g) = ch g @ [m])"
  by (auto simp: getVirusTotalURLs_def Let_def
      split: sum.splits prod.splits result.splits dest: makeRequestWithRetry_channels)

lemma wayback_sends:
  "wgDone (getWaybackURLs w d q g) = Suc (wgDone g) \<and>
   (\<exists>m. ch (getWaybackURLs w d q g) = ch g @ [m])"
  by (auto simp: getWaybackURLs_def Let_def
      split: sum.splits prod.splits result.splits dest: makeRequestWithRetry_channels)

lemma hr_sends:
  "wgDone (getHudsonRockURLs w d keys idx q g) = Suc (wgDone g) \<and>
   (\<exists>m. ch (getHudsonRockURLs w d keys idx q g) = ch g @ [m])"
proof (cases "NewRequest w ''GET'' (hrUrl d)")
  case (Inl err)
  then show ?thesis by (simp add: getHudsonRockURLs_def)
next
  case (Inr req0)
  let ?g0 = "if length keys > 0 then g else sendLog q noKeyWarning g"
  let ?req = "if length keys > 0 then HeaderAdd ''key'' (keys ! (idx mod length keys)) req0 else req0"
  obtain res g1 where mk: "makeRequestWithRetry w ?req q ''HudsonRock'' ?g0 = (res, g1)"
    by (cases "makeRequestWithRetry w ?req q ''HudsonRock'' ?g0") blast
  from makeRequestWithRetry_channels [OF mk] have g1: "ch g1 = ch g" "wgDone g1 = wgDone g"
    by (simp_all split: if_splits)
  show ?thesis
    unfolding getHudsonRockURLs_def Inr sum.case mk
    by (cases res) (simp_all add: g1 Let_def)
qed

lemma otxLoop_channels:
  assumes "otxLoop w d keys idx q acc page g = Some y"
  shows "ch (snd y) = ch g \<and> wgDone (snd y) = wgDone g"
  using assms
  by (induction rule: otxLoop.raw_induct [rotated 1, consumes 1])
     (auto split: sum.splits prod.splits result.splits if_splits
        dest!: makeRequestWithRetry_channels)

lemma otx_sends:
  assumes "getAlienVaultURLs w d keys idx q g = Some g'"
  shows "wgDone g' = Suc (wgDone g) \<and> (\<exists>m. ch g' = ch g @ [m])"
  using assms
  by (auto simp: getAlienVaultURLs_def split: option.splits dest!: otxLoop_channels)

subsection \<open>When \<open>getAlienVaultURLs\<close> returns\<close>

text \<open>
  The loop of \<open>getAlienVaultURLs\<close> has a value exactly when it reaches a \<open>break\<close> after
  some number of pages.
\<close>

lemma otxBreaks_returns:
  "otxBreaks w d keys idx q n page g \<Longrightarrow> \<exists>y. otxLoop w d keys idx q acc page g = Some y"
proof (induction n arbitrary: page g acc)
  case 0
  then show ?case by simp
next
  case (Suc n)
  show ?case
  proof (cases "NewRequest w ''GET'' (otxUrl d page)")
    case (Inl err)
    then show ?thesis by (subst otxLoop.simps) simp
  next
    case (Inr req0)
    let ?req = "if length keys > 0
                then HeaderAdd ''X-OTX-API-KEY'' (keys ! (idx mod length keys)) req0 else req0"
    obtain res g1 where mk: "makeRequestWithRetry w ?req q ''OTX'' g = (res, g1)"
      by (cases "makeRequestWithRetry w ?req q ''OTX'' g") auto
    show ?thesis
    proof (cases res)
      case (Failed resp err)
      with Inr mk show ?thesis by (subst otxLoop.simps) simp
    next
      case (Returned resp)
      show ?thesis
      proof (cases "HasNext (UnmarshalOTX w (Body resp))")
        case False
        with Inr mk Returned show ?thesis by (subst otxLoop.simps) simp
      next
        case True
        with Suc.prems Inr mk Returned have "otxBreaks w d keys idx q n (page + 1) g1" by simp
        from Suc.IH [OF this] obtain y where
          "otxLoop w d keys idx q (foldl append_go acc (URLList (UnmarshalOTX w (Body resp))))
             (page + 1) g1 = Some y" by blast
        with Inr mk Returned True show ?thesis by (subst otxLoop.simps) simp
      qed
    qed
  qed
qed

lemma otxLoop_breaks:
  assumes "otxLoop w d keys idx q acc page g = Some y"
  shows "\<exists>n. otxBreaks w d keys idx q n page g"
  using assms
proof (induction rule: otxLoop.raw_induct [rotated 1, consumes 1])
  case (1 otxLoop' w d keys idx q acc page g y)
  show ?case
  proof (cases "NewRequest w ''GET'' (otxUrl d page)")
    case (Inl err)
    then have "otxBreaks w d keys idx q (Suc 0) page g" by simp
    then show ?thesis by blast
  next
    case (Inr req0)
    let ?req = "if length keys > 0
                then HeaderAdd ''X-OTX-API-KEY'' (keys ! (idx mod length keys)) req0 else req0"
    obtain res g1 where mk: "makeRequestWithRetry w ?req q ''OTX'' g = (res, g1)"
      by (cases "makeRequestWithRetry w ?req q ''OTX'' g") auto
    show ?thesis
    proof (cases res)
      case (Failed resp err)
      with Inr mk have "otxBreaks w d keys idx q (Suc 0) page g" by simp
      then show ?thesis by blast
    next
      case (Returned resp)
      show ?thesis
      proof (cases "HasNext (UnmarshalOTX w (Body resp))")
        case False
        with Inr mk Returned have "otxBreaks w d keys idx q (Suc 0) page g" by simp
        then show ?thesis by blast
      next
        case True
        with 1(2) Inr mk Returned
        have "otxLoop' w d keys idx q (foldl append_go acc (URLList (UnmarshalOTX w (Body resp))))
                (page + 1) g1 = Some y" by simp
        from 1(1) [OF this] obtain n where "otxBreaks w d keys idx q n (page + 1) g1" by blast
        with Inr mk Returned True have "otxBreaks w d keys idx q (Suc n) page g" by simp
        then show ?thesis by blast
      qed
    qed
  qed
qed

lemma otx_returns_iff:
  "(\<exists>n. otxBreaks w d keys idx q n 1 g) \<longleftrightarrow> getAlienVaultURLs w d keys idx q g \<noteq> None"
proof
  assume "\<exists>n. otxBreaks w d keys idx q n 1 g"
  then obtain n where "otxBreaks w d keys idx q n 1 g" by blast
  from otxBreaks_returns [OF this, of None] show "getAlienVaultURLs w d keys idx q g \<noteq> None"
    by (auto simp: getAlienVaultURLs_def)
next
  assume "getAlienVaultURLs w d keys idx q g \<noteq> None"
  then obtain y where "otxLoop w d keys idx q None 1 g = Some y"
    by (auto simp: getAlienVaultURLs_def split: option.splits)
  from otxLoop_breaks [OF this] show "\<exists>n. otxBreaks w d keys idx q n 1 g" .
qed

text \<open>A server that announces a further page on every page keeps the querier running.\<close>

lemma makeRequestWithRetry_endless:
  "makeRequestWithRetry endless req q src g
     = (Returned (status 200), g\<lparr>doCalls := Suc (doCalls g)\<rparr>)"
  by (simp add: makeRequestWithRetry_def retryLoop.simps endless_def retryAttempts_def)

lemma endless_never_breaks: "\<not> otxBreaks endless d keys idx q n page g"
proof (induction n arbitrary: page g)
  case 0
  show ?case by simp
next
  case (Suc n)
  have nr: "\<And>url. NewRequest endless ''GET'' url
                = Inr \<lparr>Method = ''GET'', URL = url, Header = []\<rparr>"
    by (simp add: NewRequest_def endless_def)
  have hn: "\<And>b. HasNext (UnmarshalOTX endless b)" by (simp add: endless_def)
  show ?case using Suc.IH by (simp add: nr makeRequestWithRetry_endless hn)
qed

subsection \<open>Claim C4\<close>

text \<open>
  C4, as stated, fails for \<open>getVirusTotalURLs\<close> with an empty key list: the guard at line
  174 returns before anything is sent, so the goroutine signals completion and sends no
  message at all.
\<close>

theorem C4_counterexample:
  "ch (getVirusTotalURLs noUrls ''example.com'' [] 0 False idle) = []
   \<and> wgDone (getVirusTotalURLs noUrls ''example.com'' [] 0 False idle) = 1"
  by code_simp

text \<open>
  C4 (amended). In a world that answers every call of \<open>Do\<close>:
  \<^item> \<open>getVirusTotalURLs\<close>, \<open>getWaybackURLs\<close> and \<open>getHudsonRockURLs\<close> return on every path,
    having signalled completion on the wait group exactly once and sent exactly one
    message on the results channel; the one exception is \<open>getVirusTotalURLs\<close> with an
    empty key list, which signals completion once and sends no message;
  \<^item> \<open>getAlienVaultURLs\<close> returns if (and only if) its loop reaches a \<open>break\<close> after some
    number of pages (a request that cannot be built, a request that fails, or a page
    that announces no further one), and then it has signalled completion exactly once and
    sent exactly one message; when no number of pages reaches a \<open>break\<close>, it never
    returns, signals nothing and sends nothing.
\<close>

theorem C4_completion_and_message:
  "wgDone (getVirusTotalURLs w d keys idx q g) = wgDone g + 1
   \<and> length (ch (getVirusTotalURLs w d keys idx q g))
       = length (ch g) + (if keys = [] then 0 else 1)
   \<and> wgDone (getWaybackURLs w d q g) = wgDone g + 1
   \<and> length (ch (getWaybackURLs w d q g)) = length (ch g) + 1
   \<and> wgDone (getHudsonRockURLs w d keys idx q g) = wgDone g + 1
   \<and> length (ch (getHudsonRockURLs w d keys idx q g)) = length (ch g) + 1
   \<and> ((\<exists>n. otxBreaks w d keys idx q n 1 g) \<longrightarrow>
         (\<exists>g'. getAlienVaultURLs w d keys idx q g = Some g'
               \<and> wgDone g' = wgDone g + 1 \<and> length (ch g') = length (ch g) + 1))
   \<and> ((\<forall>n. \<not> otxBreaks w' d' keys' idx' q' n 1 g0) \<longrightarrow>
         getAlienVaultURLs w' d' keys' idx' q' g0 = None)"
proof -
  have vt: "length (ch (getVirusTotalURLs w d keys idx q g))
              = length (ch g) + (if keys = [] then 0 else 1)"
    using vt_sends [of w d keys idx q g] by (auto split: if_splits)
  have wb: "length (ch (getWaybackURLs w d q g)) = length (ch g) + 1"
    using wayback_sends [of w d q g] by auto
  have hr: "length (ch (getHudsonRockURLs w d keys idx q g)) = length (ch g) + 1"
    using hr_sends [of w d keys idx q g] by auto
  have otx: "(\<exists>n. otxBreaks w d keys idx q n 1 g) \<longrightarrow>
         (\<exists>g'. getAlienVaultURLs w d keys idx q g = Some g'
               \<and> wgDone g' = wgDone g + 1 \<and> length (ch g') = length (ch g) + 1)"
  proof
    assume "\<exists>n. otxBreaks w d keys idx q n 1 g"
    with otx_returns_iff [of w d keys idx q g]
    obtain g' where r: "getAlienVaultURLs w d keys idx q g = Some g'" by auto
    from otx_sends [OF r] have "wgDone g' = wgDone g + 1 \<and> length (ch g') = length (ch g) + 1"
      by auto
    with r show "\<exists>g'. getAlienVaultURLs w d keys idx q g = Some g'
               \<and> wgDone g' = wgDone g + 1 \<and> length (ch g') = length (ch g) + 1" by blast
  qed
  have never: "(\<forall>n. \<not> otxBreaks w' d' keys' idx' q' n 1 g0) \<longrightarrow>
         getAlienVaultURLs w' d' keys' idx' q' g0 = None"
    using otx_returns_iff [of w' d' keys' idx' q' g0] by auto
  from vt wb hr otx never vt_sends [of w d keys idx q g] wayback_sends [of w d q g]
    hr_sends [of w d keys idx q g]
  show ?thesis by simp
qed

text \<open>
  The amended C4 at three worlds: in \<open>secondPageFails\<close> the loop of
  \<open>getAlienVaultURLs\<close> reaches its \<open>break\<close> on the second page, in \<open>endless\<close> it reaches
  none, in \<open>noUrls\<close> \<open>getVirusTotalURLs\<close> is run with one key.
\<close>

theorem C4_witness:
  "(\<exists>g'. getAlienVaultURLs secondPageFails ''example.com'' [] 0 False idle = Some g'
         \<and> wgDone g' = 1 \<and> length (ch g') = 1)
   \<and> getAlienVaultURLs endless ''example.com'' [] 0 False idle = None
   \<and> wgDone (getVirusTotalURLs noUrls ''example.com'' [''key''] 0 False idle) = 1
   \<and> length (ch (getVirusTotalURLs noUrls ''example.com'' [''key''] 0 False idle)) = 1"
proof -
  have two: "otxBreaks secondPageFails ''example.com'' [] 0 False 2 1 idle"
    by code_simp
  then have br: "\<exists>n. otxBreaks secondPageFails ''example.com'' [] 0 False n 1 idle" by blast
  have nv: "\<forall>n. \<not> otxBreaks endless ''example.com'' [] 0 False n 1 idle"
    by (simp add: endless_never_breaks)
  from br nv
    C4_completion_and_message [of noUrls "''example.com''" "[''key'']" 0 False idle]
    C4_completion_and_message [of secondPageFails "''example.com''" "[]" 0 False idle
      endless "''example.com''" "[]" 0 False idle]
  show ?thesis by (simp add: idle_def)
qed

subsection \<open>Claim C5\<close>

text \<open>
  Where the other three queriers leave at a failure with \<open>ch <- nil\<close> and \<open>return\<close>,
  \<open>getAlienVaultURLs\<close> leaves its loop with \<open>break\<close> and goes on to the lines after the
  loop: it logs SUCCESS and sends what it has collected.
\<close>

lemma wayback_failure:
  assumes "NewRequest w ''GET'' (waybackUrl d) = Inr req"
    and "makeRequestWithRetry w req q ''Wayback'' g = (Failed r e, g1)"
  shows "getWaybackURLs w d q g = Done (send None (sendLog q (errorMessage ''Wayback'' e) g1))"
  using assms by (simp add: getWaybackURLs_def)

lemma otx_failure_on_first_page:
  assumes "NewRequest w ''GET'' (otxUrl d 1) = Inr req"
    and "makeRequestWithRetry w req q ''OTX'' g = (Failed r e, g1)"
  shows "getAlienVaultURLs w d [] idx q g
           = Some (Done (send None (sendLog q (foundMessage ''OTX'' None)
                    (sendLog q (errorMessage ''OTX'' e) g1))))"
  using assms by (simp add: getAlienVaultURLs_def otxLoop.simps)

text \<open>
  C5 at a failing input: the first page of OTX holds two URLs and announces a further
  page, and every attempt at the second page times out. The querier sends the two URLs
  of the first page, not the absent marker, and logs SUCCESS after the ERROR.
\<close>

theorem C5_otx_failure_sends_partial_list:
  "getAlienVaultURLs secondPageFails ''example.com'' [] 0 False idle
     = Some \<lparr>doCalls = 4, slept = [5, 5, 5],
              logChan =
                [retryWarning ''OTX'' 0 ''timeout'', retryWarning ''OTX'' 1 ''timeout'',
                 retryWarning ''OTX'' 2 ''timeout'',
                 errorMessage ''OTX'' ''request failed after 3 attempts: timeout'',
                 foundMessage ''OTX'' (Some [''a.com/x'', ''a.com/y''])],
              ch = [Some [''a.com/x'', ''a.com/y'']], wgDone = 1\<rparr>"
  by code_simp

subsection \<open>A list that is sent is never empty\<close>

text \<open>
  Each querier starts from the nil slice and only appends, so what it sends is either
  the nil slice or a list with at least one URL: no querier ever sends a list that is
  present and empty. An exchange that succeeds with zero URLs therefore sends the nil
  slice, the value that also marks a failure.
\<close>

lemma append_go_present: "append_go s x \<noteq> Some []"
  by (simp add: append_go_def split: option.splits)

lemma appended_present:
  assumes "s \<noteq> Some []"
  shows "foldl (\<lambda>urls x. if keep x then append_go urls (pick x) else urls) s xs \<noteq> Some []"
  using assms by (induction xs arbitrary: s) (simp_all add: append_go_present)

lemma appended_all_present:
  assumes "s \<noteq> Some []"
  shows "foldl append_go s xs \<noteq> Some []"
  using assms by (induction xs arbitrary: s) (simp_all add: append_go_present)

lemma vtUrls_present: "vtUrls r \<noteq> Some []" "Some [] \<noteq> vtUrls r"
proof -
  have "foldl (\<lambda>urls item. if length item > 0 then append_go urls (item ! 0) else urls)
          None (UndetectedUrls r) \<noteq> Some []"
    by (rule appended_present [where keep = "\<lambda>item. length item > 0"
          and pick = "\<lambda>item. item ! 0"]) simp
  then show "vtUrls r \<noteq> Some []"
    unfolding vtUrls_def by (cases "ResponseCode r = 1") (simp_all del: length_greater_0_conv)
  then show "Some [] \<noteq> vtUrls r" by (rule not_sym)
qed

lemma waybackUrls_present: "waybackUrls body \<noteq> Some []" "Some [] \<noteq> waybackUrls body"
proof -
  show "waybackUrls body \<noteq> Some []"
    unfolding waybackUrls_def
    by (rule appended_present [where keep = "\<lambda>line. TrimSpace line \<noteq> []"
          and pick = "\<lambda>line. line"]) simp
  then show "Some [] \<noteq> waybackUrls body" by (rule not_sym)
qed

lemma hrUrls_present:
  "foldl append_go None xs \<noteq> Some []" "Some [] \<noteq> foldl append_go None xs"
  using appended_all_present [of None xs] by auto

lemma vt_never_empty_list:
  "Some [] \<notin> set (ch (getVirusTotalURLs w d keys idx q idle))"
proof (cases "length keys = 0")
  case True
  then show ?thesis by (simp add: getVirusTotalURLs_def idle_def)
next
  case False
  show ?thesis
  proof (cases "NewRequest w ''GET'' (vtUrl (keys ! (idx mod length keys)) d)")
    case (Inl err)
    with False show ?thesis by (simp add: getVirusTotalURLs_def idle_def)
  next
    case (Inr req)
    obtain res g1 where mk: "makeRequestWithRetry w req q ''VT'' idle = (res, g1)"
      by (cases "makeRequestWithRetry w req q ''VT'' idle") blast
    from makeRequestWithRetry_channels [OF mk] have "ch g1 = []" by (simp add: idle_def)
    with False Inr mk show ?thesis
      by (cases res) (auto simp: getVirusTotalURLs_def Let_def vtUrls_present)
  qed
qed

lemma wayback_never_empty_list:
  "Some [] \<notin> set (ch (getWaybackURLs w d q idle))"
proof (cases "NewRequest w ''GET'' (waybackUrl d)")
  case (Inl err)
  then show ?thesis by (simp add: getWaybackURLs_def idle_def)
next
  case (Inr req)
  obtain res g1 where mk: "makeRequestWithRetry w req q ''Wayback'' idle = (res, g1)"
    by (cases "makeRequestWithRetry w req q ''Wayback'' idle") blast
  from makeRequestWithRetry_channels [OF mk] have "ch g1 = []" by (simp add: idle_def)
  with Inr mk show ?thesis
    by (cases res) (auto simp: getWaybackURLs_def Let_def waybackUrls_present)
qed

lemma hr_never_empty_list:
  "Some [] \<notin> set (ch (getHudsonRockURLs w d keys idx q idle))"
proof (cases "NewRequest w ''GET'' (hrUrl d)")
  case (Inl err)
  then show ?thesis by (simp add: getHudsonRockURLs_def idle_def)
next
  case (Inr req0)
  let ?g0 = "if length keys > 0 then idle else sendLog q noKeyWarning idle"
  let ?req = "if length keys > 0 then HeaderAdd ''key'' (keys ! (idx mod length keys)) req0 else req0"
  obtain res g1 where mk: "makeRequestWithRetry w ?req q ''HudsonRock'' ?g0 = (res, g1)"
    by (cases "makeRequestWithRetry w ?req q ''HudsonRock'' ?g0") blast
  from makeRequestWithRetry_channels [OF mk] have g1: "ch g1 = []"
    by (simp add: idle_def split: if_splits)
  show ?thesis
    unfolding getHudsonRockURLs_def Inr sum.case mk
    by (cases res) (auto simp: g1 Let_def hrUrls_present)
qed

lemma otxLoop_never_empty_list:
  assumes "otxLoop w d keys idx q acc page g = Some y" and "acc \<noteq> Some []"
  shows "fst y \<noteq> Some []"
  using assms
proof (induction rule: otxLoop.raw_induct [rotated 1, consumes 1])
  case (1 loop w d keys idx q acc page g y)
  have ext: "foldl append_go acc xs \<noteq> Some []" for xs
    using "1.prems" by (rule appended_all_present)
  from 1 ext show ?case
    by (auto split: sum.splits prod.splits result.splits if_splits)
qed

lemma otx_never_empty_list:
  assumes "getAlienVaultURLs w d keys idx q idle = Some g"
  shows "Some [] \<notin> set (ch g)"
proof -
  from assms obtain acc g1 where
    l: "otxLoop w d keys idx q None 1 idle = Some (acc, g1)"
    and g: "g = Done (send acc (sendLog q (foundMessage ''OTX'' acc) g1))"
    by (auto simp: getAlienVaultURLs_def split: option.splits)
  from otxLoop_never_empty_list [OF l] have "acc \<noteq> Some []" by simp
  moreover from otxLoop_channels [OF l] have "ch g1 = []" by (simp add: idle_def)
  ultimately show ?thesis by (auto simp: g)
qed

section \<open>The orchestration of \<open>main\<close>\<close>

subsection \<open>The set of URLs and the drain loop\<close>


lemma set_insertUrl: "set (insertUrl m u) = insert u (set m)"
  by (auto simp: insertUrl_def)

lemma distinct_insertUrl: "distinct m \<Longrightarrow> distinct (insertUrl m u)"
  by (simp add: insertUrl_def)

lemma insertUrl_extends: "\<exists>zs. insertUrl m u = m @ zs"
  by (simp add: insertUrl_def)

lemma set_foldl_insertUrl: "set (foldl insertUrl m us) = set m \<union> set us"
  by (induction us arbitrary: m) (auto simp: set_insertUrl)

lemma distinct_foldl_insertUrl: "distinct m \<Longrightarrow> distinct (foldl insertUrl m us)"
  by (induction us arbitrary: m) (auto simp: distinct_insertUrl)

lemma foldl_insertUrl_extends: "\<exists>zs. foldl insertUrl m us = m @ zs"
proof (induction us arbitrary: m)
  case Nil
  then show ?case by simp
next
  case (Cons u us)
  obtain zs where a: "insertUrl m u = m @ zs" using insertUrl_extends by blast
  obtain zs' where "foldl insertUrl (insertUrl m u) us = insertUrl m u @ zs'"
    using Cons.IH by blast
  with a show ?case by simp
qed

lemma drain_success: "fst (drain msgs s m) = (s \<or> \<not> allAbsent msgs)"
  by (induction msgs arbitrary: s m) (auto simp: allAbsent_def)

lemma drain_set: "set (snd (drain msgs s m)) = set m \<union> urlsOf msgs"
  by (induction msgs arbitrary: s m) (auto simp: urlsOf_def set_foldl_insertUrl)

lemma drain_distinct: "distinct m \<Longrightarrow> distinct (snd (drain msgs s m))"
  by (induction msgs arbitrary: s m) (auto simp: distinct_foldl_insertUrl)

lemma drain_extends: "\<exists>zs. snd (drain msgs s m) = m @ zs"
proof (induction msgs arbitrary: s m)
  case Nil
  then show ?case by simp
next
  case (Cons urls msgs)
  obtain zs where a: "foldl insertUrl m (range_go urls) = m @ zs"
    using foldl_insertUrl_extends by blast
  obtain zs' where "snd (drain msgs (if urls \<noteq> None then True else s) (m @ zs)) = (m @ zs) @ zs'"
    using Cons.IH by blast
  with a show ?case by simp
qed

lemma urlsOf_append: "urlsOf (xs @ ys) = urlsOf xs \<union> urlsOf ys"
  by (simp add: urlsOf_def)

subsection \<open>One domain\<close>

lemma length_waited: "waited gs = Some fin \<Longrightarrow> length fin = length gs"
  by (auto simp: waited_def split: if_splits)

lemma processDomain_eq:
  assumes "waited (dispatched w config ex q (apiKeyIndex st) d) = Some fin"
  shows "processDomain w config ex q another d st =
           Some \<lparr>finalUrlSet = snd (drain (concat (map ch fin)) False (finalUrlSet st)),
                 apiKeyIndex = apiKeyIndex st + 1,
                 failedDomains =
                   (if 0 < length fin \<and> allAbsent (concat (map ch fin))
                    then failedDomains st @ [d] else failedDomains st),
                 printed = printed st @ concat (map logChan fin),
                 drained = drained st @ concat (map ch fin),
                 mainSlept = (if another then mainSlept st @ [requestDelay] else mainSlept st)\<rparr>"
  using assms length_waited [OF assms]
  by (simp add: processDomain_def Let_def case_prod_beta drain_success)

lemma processDomain_None:
  assumes "waited (dispatched w config ex q (apiKeyIndex st) d) = None"
  shows "processDomain w config ex q another d st = None"
  using assms by (simp add: processDomain_def Let_def)

text \<open>
  The history \<open>drained\<close> grows, at each domain, by exactly the messages that the
  goroutines dispatched for that domain have sent on the results channel.
\<close>

lemma processDomain_drained:
  assumes "processDomain w config ex q another d st = Some st'"
  shows "\<exists>fin. waited (dispatched w config ex q (apiKeyIndex st) d) = Some fin
           \<and> drained st' = drained st @ concat (map ch fin)"
proof (cases "waited (dispatched w config ex q (apiKeyIndex st) d)")
  case None
  with assms show ?thesis by (simp add: processDomain_None)
next
  case (Some fin)
  from processDomain_eq [OF Some, of another] assms show ?thesis
    using Some by auto
qed

lemma dispatched_none_enabled:
  assumes "ex ''vt''" "ex ''otx''" "ex ''wayback''" "ex ''hr''"
  shows "dispatched w config ex q idx d = []"
  using assms by (simp add: dispatched_def)


subsection \<open>The loop over the lines\<close>

lemma mainLoop_invariant:
  assumes "mainLoop env config ex q n i lines st = Some st'"
  shows "(distinct (finalUrlSet st) \<longrightarrow> distinct (finalUrlSet st'))
     \<and> (set (finalUrlSet st) = urlsOf (drained st) \<longrightarrow>
            set (finalUrlSet st') = urlsOf (drained st'))
     \<and> (\<exists>zs. finalUrlSet st' = finalUrlSet st @ zs)
     \<and> (\<exists>zs. failedDomains st' = failedDomains st @ zs)"
  using assms
proof (induction lines arbitrary: i st)
  case Nil
  then show ?case by simp
next
  case (Cons line rest)
  let ?d = "cleanDomainLine (TrimSpace line)"
  show ?case
  proof (cases "TrimSpace line = [] \<or> ?d = [] \<or> \<not> isValidDomain ?d")
    case True
    with Cons.prems have "mainLoop env config ex q n (i + 1) rest st = Some st'"
      by (auto split: if_splits)
    from Cons.IH [OF this] show ?thesis .
  next
    case False
    with Cons.prems obtain st1 where
      p: "processDomain (env i) config ex q (i + 1 < n) ?d st = Some st1" and
      l: "mainLoop env config ex q n (i + 1) rest st1 = Some st'"
      by (auto split: option.splits)
    from p obtain fin where
      w: "waited (dispatched (env i) config ex q (apiKeyIndex st) ?d) = Some fin"
      by (cases "waited (dispatched (env i) config ex q (apiKeyIndex st) ?d)")
         (auto simp: processDomain_None)
    note eq = processDomain_eq [OF w, of "i + 1 < n"]
    from p eq have f: "finalUrlSet st1 = snd (drain (concat (map ch fin)) False (finalUrlSet st))"
      and dr: "drained st1 = drained st @ concat (map ch fin)"
      and fd: "\<exists>zs. failedDomains st1 = failedDomains st @ zs"
      by auto
    from drain_extends [of "concat (map ch fin)" False "finalUrlSet st"] f
    obtain zs where zs: "finalUrlSet st1 = finalUrlSet st @ zs" by auto
    have a: "distinct (finalUrlSet st) \<longrightarrow> distinct (finalUrlSet st1)"
      by (simp add: f drain_distinct)
    have b: "set (finalUrlSet st) = urlsOf (drained st) \<longrightarrow>
             set (finalUrlSet st1) = urlsOf (drained st1)"
      by (simp add: f dr drain_set urlsOf_append)
    from Cons.IH [OF l] a b zs fd show ?thesis by auto
  qed
qed


lemma mainLoop_apiKeyIndex:
  assumes "mainLoop env config ex q n i lines st = Some st'"
  shows "apiKeyIndex st' \<le> apiKeyIndex st + length lines"
  using assms
proof (induction lines arbitrary: i st)
  case Nil
  then show ?case by simp
next
  case (Cons line rest)
  let ?d = "cleanDomainLine (TrimSpace line)"
  show ?case
  proof (cases "TrimSpace line = [] \<or> ?d = [] \<or> \<not> isValidDomain ?d")
    case True
    with Cons.prems have "mainLoop env config ex q n (i + 1) rest st = Some st'"
      by (auto split: if_splits)
    from Cons.IH [OF this] show ?thesis by simp
  next
    case False
    with Cons.prems obtain st1 where
      p: "processDomain (env i) config ex q (i + 1 < n) ?d st = Some st1" and
      l: "mainLoop env config ex q n (i + 1) rest st1 = Some st'"
      by (auto split: option.splits)
    from p have "apiKeyIndex st1 = apiKeyIndex st + 1"
      by (auto simp: processDomain_def Let_def case_prod_beta split: option.splits)
    with Cons.IH [OF l] show ?thesis by simp
  qed
qed

subsection \<open>The end of a run\<close>

lemma fatal_exit [simp]: "exitCode (fatal out ws st) = 1"
  by (simp add: fatal_def)


lemma onInterrupt_exit0:
  assumes "exitCode (onInterrupt fl cc out0 st) = 0"
  shows "onInterrupt fl cc out0 st =
           \<lparr>exitCode = 0, stdout = out0,
            written =
              (outputFile fl, finalUrlSet st)
              # (if failedDomains st \<noteq> [] then [(''failed_domains.txt'', failedDomains st)] else []),
            final = st\<rparr>"
  using assms
  by (auto simp: onInterrupt_def writeLinesToFile_def split: if_splits sum.splits)

lemma onInterrupt_writable:
  assumes "cc (outputFile fl)" and "cc ''failed_domains.txt''"
  shows "exitCode (onInterrupt fl cc out0 st) = 0"
  using assms by (simp add: onInterrupt_def writeLinesToFile_def)


lemma main_uninterrupted:
  assumes "\<not> versionFlag fl" and "domains \<noteq> []"
  shows "main fl (Inr config) (Inr domains) env cc None =
           map_option (finish fl cc (if \<not> silent fl then [Banner] else []))
             (mainLoop env config (excludedMap (excludeSources fl)) (silent fl)
                (length domains) 0 domains initial)"
  using assms by (simp add: main_def Let_def)

lemma main_interrupted:
  assumes "\<not> versionFlag fl" and "k < length domains"
  shows "main fl (Inr config) (Inr domains) env cc (Some k) =
           map_option (onInterrupt fl cc (if \<not> silent fl then [Banner] else []))
             (mainLoop env config (excludedMap (excludeSources fl)) (silent fl)
                (length domains) 0 (take k domains) initial)"
  using assms by (auto simp: main_def Let_def)

lemma initial_consistent:
  "distinct (finalUrlSet initial) \<and> set (finalUrlSet initial) = urlsOf (drained initial)"
  by (simp add: initial_def urlsOf_def)


subsection \<open>The example of the specification, evaluated\<close>

lemma example_run:
  "main exampleFlags (Inr noKeys) (Inr exampleLines) exampleEnv anyFile None
     = Some exampleOutcome"
  by code_simp




subsection \<open>Claim C3\<close>

text \<open>
  C3: for a domain that is processed, with \<open>fin\<close> the goroutines dispatched for it (their
  number is \<open>runCount\<close>), the domain is appended to \<open>failedDomains\<close> if and only if at
  least one goroutine was dispatched and every message they sent is the absent marker
  (no dispatched source produced a result that is not absent); otherwise \<open>failedDomains\<close>
  is unchanged. In particular, when all four sources are excluded nothing is dispatched
  and the domain is not added.
\<close>

theorem C3_failed_domain:
  "(waited (dispatched w config ex q (apiKeyIndex st) d) = Some fin \<longrightarrow>
      length fin = length (dispatched w config ex q (apiKeyIndex st) d) \<and>
      (\<exists>st'. processDomain w config ex q another d st = Some st' \<and>
         failedDomains st' =
           (if 0 < length fin \<and> allAbsent (concat (map ch fin))
            then failedDomains st @ [d] else failedDomains st)))
   \<and> (ex' ''vt'' \<and> ex' ''otx'' \<and> ex' ''wayback'' \<and> ex' ''hr'' \<longrightarrow>
      dispatched w' config' ex' q' (apiKeyIndex st0) d' = [] \<and>
      (\<exists>st'. processDomain w' config' ex' q' another' d' st0 = Some st' \<and>
         failedDomains st' = failedDomains st0))"
proof (intro conjI impI)
  assume a: "waited (dispatched w config ex q (apiKeyIndex st) d) = Some fin"
  from length_waited [OF a]
  show "length fin = length (dispatched w config ex q (apiKeyIndex st) d)" .
  from processDomain_eq [OF a, of another]
  show "\<exists>st'. processDomain w config ex q another d st = Some st' \<and>
         failedDomains st' =
           (if 0 < length fin \<and> allAbsent (concat (map ch fin))
            then failedDomains st @ [d] else failedDomains st)"
    by simp
next
  assume b: "ex' ''vt'' \<and> ex' ''otx'' \<and> ex' ''wayback'' \<and> ex' ''hr''"
  then show e: "dispatched w' config' ex' q' (apiKeyIndex st0) d' = []"
    by (simp add: dispatched_none_enabled)
  then have "waited (dispatched w' config' ex' q' (apiKeyIndex st0) d') = Some []"
    by (simp add: waited_def)
  from processDomain_eq [OF this, of another']
  show "\<exists>st'. processDomain w' config' ex' q' another' d' st0 = Some st' \<and>
         failedDomains st' = failedDomains st0"
    by simp
qed

text \<open>
  C3 at \<open>example.com\<close> with Wayback alone enabled, answering without any URL (the domain
  is added) and with two URLs (it is not), and with the four sources excluded (it is
  not).
\<close>

theorem C3_witness:
  "(\<exists>st'. processDomain noUrls noKeys (excludedMap ''vt,otx,hr'') False False ''example.com''
            initial = Some st' \<and> failedDomains st' = [''example.com''])
   \<and> (\<exists>st'. processDomain firstDomain noKeys (excludedMap ''vt,otx,hr'') False False
            ''example.com'' initial = Some st' \<and> failedDomains st' = [])
   \<and> (\<exists>st'. processDomain noUrls noKeys (excludedMap ''vt,otx,wayback,hr'') False False
            ''example.com'' initial = Some st' \<and> failedDomains st' = [])"
proof -
  have a: "waited (dispatched noUrls noKeys (excludedMap ''vt,otx,hr'') False
             (apiKeyIndex initial) ''example.com'')
           = Some [\<lparr>doCalls = 1, slept = [], logChan = [foundMessage ''Wayback'' None],
                    ch = [None], wgDone = 1\<rparr>]"
    by code_simp
  have b: "waited (dispatched firstDomain noKeys (excludedMap ''vt,otx,hr'') False
             (apiKeyIndex initial) ''example.com'')
           = Some [\<lparr>doCalls = 1, slept = [],
                    logChan = [foundMessage ''Wayback'' (Some [''a.com/x'', ''a.com/y''])],
                    ch = [Some [''a.com/x'', ''a.com/y'']], wgDone = 1\<rparr>]"
    by code_simp
  have c: "excludedMap ''vt,otx,wayback,hr'' ''vt'' \<and> excludedMap ''vt,otx,wayback,hr'' ''otx''
         \<and> excludedMap ''vt,otx,wayback,hr'' ''wayback'' \<and> excludedMap ''vt,otx,wayback,hr'' ''hr''"
    by code_simp
  from a C3_failed_domain [of noUrls noKeys "excludedMap ''vt,otx,hr''" False initial
      "''example.com''" "[\<lparr>doCalls = 1, slept = [], logChan = [foundMessage ''Wayback'' None],
                    ch = [None], wgDone = 1\<rparr>]" False]
  have 1: "\<exists>st'. processDomain noUrls noKeys (excludedMap ''vt,otx,hr'') False False ''example.com''
            initial = Some st' \<and> failedDomains st' = [''example.com'']"
    by (simp add: allAbsent_def initial_def)
  from b C3_failed_domain [of firstDomain noKeys "excludedMap ''vt,otx,hr''" False initial
      "''example.com''" "[\<lparr>doCalls = 1, slept = [],
                    logChan = [foundMessage ''Wayback'' (Some [''a.com/x'', ''a.com/y''])],
                    ch = [Some [''a.com/x'', ''a.com/y'']], wgDone = 1\<rparr>]" False]
  have 2: "\<exists>st'. processDomain firstDomain noKeys (excludedMap ''vt,otx,hr'') False False
            ''example.com'' initial = Some st' \<and> failedDomains st' = []"
    by (simp add: allAbsent_def initial_def)
  from c C3_failed_domain [where ex' = "excludedMap ''vt,otx,wayback,hr''" and w' = noUrls
      and config' = noKeys and q' = False and another' = False and d' = "''example.com''"
      and ?st0.0 = initial]
  have 3: "\<exists>st'. processDomain noUrls noKeys (excludedMap ''vt,otx,wayback,hr'') False False
            ''example.com'' initial = Some st' \<and> failedDomains st' = []"
    by (simp add: initial_def)
  from 1 2 3 show ?thesis by blast
qed

subsection \<open>Claim C1\<close>

text \<open>
  C1 at a failing input, the end-to-end example of the specification. For
  \<open>sub.example.co\<close> OTX and Wayback both succeed with zero URLs: each logs SUCCESS with
  \<open>Found 0 URLs\<close> and sends its \<open>urls\<close>, which is still the nil slice it was declared
  as, since nothing was appended (no querier ever sends a list that is present and empty,
  see above). The drain loop reads two nil slices, \<open>domainSuccess\<close> stays false, and
  \<open>sub.example.co\<close> is written to \<open>failed_domains.txt\<close>.
\<close>

theorem C1_zero_urls_count_as_failure:
  "map_option (failedDomains \<circ> final)
     (main exampleFlags (Inr noKeys) (Inr exampleLines) exampleEnv anyFile None)
     = Some [''sub.example.co'']
   \<and> map_option (printed \<circ> final)
       (main exampleFlags (Inr noKeys) (Inr exampleLines) exampleEnv anyFile None)
     = Some [foundMessage ''OTX'' (Some [''a.com/x'']),
             foundMessage ''Wayback'' (Some [''a.com/x'', ''a.com/y'']),
             foundMessage ''OTX'' None, foundMessage ''Wayback'' None]
   \<and> map_option (drained \<circ> final)
       (main exampleFlags (Inr noKeys) (Inr exampleLines) exampleEnv anyFile None)
     = Some [Some [''a.com/x''], Some [''a.com/x'', ''a.com/y''], None, None]
   \<and> map_option written
       (main exampleFlags (Inr noKeys) (Inr exampleLines) exampleEnv anyFile None)
     = Some [(''failed_domains.txt'', [''sub.example.co'']),
             (''endpoints.txt'', [''a.com/x'', ''a.com/y''])]"
  by (simp add: example_run exampleOutcome_def exampleFinal_def)

subsection \<open>Claim C6\<close>




subsection \<open>An interrupt between two iterations\<close>

text \<open>
  When the signal arrives after \<open>k\<close> lines, between two iterations, and the two files
  can be created, the process ends with status 0 having written the set as it stands to
  the output path and, if and only if a domain has failed, the failed domains to
  \<open>failed_domains.txt\<close>; at most \<open>k\<close> domains have been processed.
\<close>

lemma interrupt_between_iterations:
  "\<not> versionFlag fl \<and> k < length domains \<and> cc (outputFile fl) \<and> cc ''failed_domains.txt'' \<and>
   mainLoop env config (excludedMap (excludeSources fl)) (silent fl) (length domains) 0
     (take k domains) initial = Some st \<longrightarrow>
     main fl (Inr config) (Inr domains) env cc (Some k) =
       Some \<lparr>exitCode = 0, stdout = (if silent fl then [] else [Banner]),
              written =
                (outputFile fl, finalUrlSet st)
                # (if failedDomains st \<noteq> [] then [(''failed_domains.txt'', failedDomains st)]
                   else []),
              final = st\<rparr>
     \<and> distinct (finalUrlSet st) \<and> set (finalUrlSet st) = urlsOf (drained st)
     \<and> apiKeyIndex st \<le> k"
proof (intro impI)
  assume a: "\<not> versionFlag fl \<and> k < length domains \<and> cc (outputFile fl) \<and>
    cc ''failed_domains.txt'' \<and>
    mainLoop env config (excludedMap (excludeSources fl)) (silent fl) (length domains) 0
      (take k domains) initial = Some st"
  then have ml: "mainLoop env config (excludedMap (excludeSources fl)) (silent fl)
      (length domains) 0 (take k domains) initial = Some st" by simp
  let ?out0 = "if \<not> silent fl then [Banner] else []"
  from a have "exitCode (onInterrupt fl cc ?out0 st) = 0"
    by (simp add: onInterrupt_writable)
  note eq = onInterrupt_exit0 [OF this]
  from a have m: "main fl (Inr config) (Inr domains) env cc (Some k)
                    = Some (onInterrupt fl cc ?out0 st)"
    by (simp add: main_interrupted)
  have 1: "main fl (Inr config) (Inr domains) env cc (Some k) =
       Some \<lparr>exitCode = 0, stdout = (if silent fl then [] else [Banner]),
              written =
                (outputFile fl, finalUrlSet st)
                # (if failedDomains st \<noteq> [] then [(''failed_domains.txt'', failedDomains st)]
                   else []),
              final = st\<rparr>"
    unfolding m eq by simp
  from mainLoop_invariant [OF ml] initial_consistent
  have 2: "distinct (finalUrlSet st) \<and> set (finalUrlSet st) = urlsOf (drained st)" by simp
  from mainLoop_apiKeyIndex [OF ml] a have 3: "apiKeyIndex st \<le> k"
    by (simp add: initial_def)
  from 1 2 3 show "main fl (Inr config) (Inr domains) env cc (Some k) =
       Some \<lparr>exitCode = 0, stdout = (if silent fl then [] else [Banner]),
              written =
                (outputFile fl, finalUrlSet st)
                # (if failedDomains st \<noteq> [] then [(''failed_domains.txt'', failedDomains st)]
                   else []),
              final = st\<rparr>
     \<and> distinct (finalUrlSet st) \<and> set (finalUrlSet st) = urlsOf (drained st)
     \<and> apiKeyIndex st \<le> k" by simp
qed

subsection \<open>Claim C10\<close>




section \<open>The order of events within one domain\<close>

subsection \<open>The invariant\<close>

lemma past_simps [simp]:
  "pastWait Dispatching = False" "pastWait Branching = False" "pastWait Waiting = False"
  "pastWait ClosingUrl" "pastWait ClosingLog" "pastWait WaitingLog" "pastWait Draining"
  "pastWait Deciding" "pastWait Ended"
  "pastCloseUrl Dispatching = False" "pastCloseUrl Branching = False"
  "pastCloseUrl Waiting = False" "pastCloseUrl ClosingUrl = False"
  "pastCloseUrl ClosingLog" "pastCloseUrl WaitingLog" "pastCloseUrl Draining"
  "pastCloseUrl Deciding" "pastCloseUrl Ended"
  "pastCloseLog Dispatching = False" "pastCloseLog Branching = False"
  "pastCloseLog Waiting = False" "pastCloseLog ClosingUrl = False"
  "pastCloseLog ClosingLog = False"
  "pastCloseLog WaitingLog" "pastCloseLog Draining" "pastCloseLog Deciding" "pastCloseLog Ended"
  "pastWaitLog Dispatching = False" "pastWaitLog Branching = False"
  "pastWaitLog Waiting = False" "pastWaitLog ClosingUrl = False"
  "pastWaitLog ClosingLog = False" "pastWaitLog WaitingLog = False"
  "pastWaitLog Draining" "pastWaitLog Deciding" "pastWaitLog Ended"
  by (simp_all add: pastWait_def pastCloseUrl_def pastCloseLog_def pastWaitLog_def)

lemma invariant_start: "invariant scripts (start scripts)"
  by (simp add: invariant_def start_def)

lemma invariant_stepMain:
  assumes "invariant scripts s"
  shows "invariant scripts (stepMain s)"
  using assms
  by (cases "pcMain s")
     (auto simp: invariant_def stepMain_def split: list.splits)

lemma invariant_stepConsumer:
  assumes "invariant scripts s"
  shows "invariant scripts (stepConsumer s)"
  using assms
  by (auto simp: invariant_def stepConsumer_def split: list.splits)


lemma filter_update_count:
  assumes "i < length xs"
  shows "length (filter P (xs[i := y])) + (if P (xs ! i) then 1 else 0)
           = length (filter P xs) + (if P y then 1 else 0)"
  using assms
proof (induction xs arbitrary: i)
  case Nil
  then show ?case by simp
next
  case (Cons x xs)
  show ?case
  proof (cases i)
    case 0
    then show ?thesis by simp
  next
    case (Suc j)
    with Cons.prems have "j < length xs" by simp
    from Cons.IH [OF this] Suc show ?thesis by simp
  qed
qed

lemma unreturned_return:
  assumes "i < length rs" and "rs ! i = (acts, False)"
  shows "length (filter (\<lambda>r. \<not> snd r) (rs[i := ([], True)]))
           = length (filter (\<lambda>r. \<not> snd r) rs) - 1"
  using filter_update_count [OF assms(1), of "\<lambda>r. \<not> snd r" "([], True)"] assms(2)
  by simp

lemma unreturned_send:
  assumes "i < length rs" and "rs ! i = (acts, False)"
  shows "length (filter (\<lambda>r. \<not> snd r) (rs[i := (rest, False)]))
           = length (filter (\<lambda>r. \<not> snd r) rs)"
  using filter_update_count [OF assms(1), of "\<lambda>r. \<not> snd r" "(rest, False)"] assms(2)
  by simp

lemma unreturned_positive:
  assumes "i < length rs" and "rs ! i = (acts, False)"
  shows "0 < length (filter (\<lambda>r. \<not> snd r) rs)"
proof -
  from assms(1) have "rs ! i \<in> set rs" by (rule nth_mem)
  with assms(2) have "rs ! i \<in> set (filter (\<lambda>r. \<not> snd r) rs)" by simp
  then show ?thesis by (cases "filter (\<lambda>r. \<not> snd r) rs") auto
qed

lemma list_all_update:
  assumes "list_all P xs" and "P y"
  shows "list_all P (xs[i := y])"
  using assms by (auto simp: list_all_iff dest: set_update_subset_insert [THEN subsetD])

lemma invariant_stepQuerier:
  assumes "invariant scripts s"
  shows "invariant scripts (stepQuerier i s)"
proof (cases "i < length (running s)")
  case False
  with assms show ?thesis by (simp add: stepQuerier_def)
next
  case True
  obtain acts returned where r: "running s ! i = (acts, returned)"
    by (cases "running s ! i")
  show ?thesis
  proof (cases returned)
    case True
    with r \<open>i < length (running s)\<close> assms show ?thesis by (simp add: stepQuerier_def)
  next
    case False
    with r have r': "running s ! i = (acts, False)" by simp
    from assms have wg: "wgCount s = length (filter (\<lambda>r. \<not> snd r) (running s))"
      by (simp add: invariant_def)
    from unreturned_positive [OF True r'] wg have pos: "0 < wgCount s" by simp
    with assms have notpast: "\<not> pastWait (pcMain s)" by (auto simp: invariant_def)
    then have unclosed: "\<not> pastCloseUrl (pcMain s)" "\<not> pastCloseLog (pcMain s)"
      "\<not> pastWaitLog (pcMain s)"
      by (cases "pcMain s"; simp)+
    from unclosed assms have notclosed: "\<not> urlClosed s" "\<not> logClosed s" "\<not> consumerDone s"
      by (auto simp: invariant_def)
    show ?thesis
    proof (cases acts)
      case Nil
      with True r' assms notclosed show ?thesis
        by (auto simp: invariant_def stepQuerier_def unreturned_return list_all_update)
    next
      case (Cons a rest)
      show ?thesis
      proof (cases a)
        case (LogSend msg)
        with Cons True r' assms notclosed show ?thesis
          by (auto simp: invariant_def stepQuerier_def unreturned_send list_all_update)
      next
        case (UrlSend urls)
        with Cons True r' assms notclosed show ?thesis
          by (auto simp: invariant_def stepQuerier_def unreturned_send list_all_update)
      qed
    qed
  qed
qed

lemma invariant_step:
  assumes "invariant scripts s"
  shows "invariant scripts (step s p)"
  using assms
  by (cases p) (simp_all add: step_def invariant_stepMain invariant_stepConsumer
      invariant_stepQuerier)

lemma invariant_exec:
  assumes "invariant scripts s"
  shows "invariant scripts (exec schedule s)"
  using assms
  by (induction schedule arbitrary: s) (simp_all add: exec_def invariant_step)

lemma invariant_settled:
  assumes "invariant scripts s" and "reading s"
  shows "settled scripts s"
proof -
  from assms have p: "pastWaitLog (pcMain s)"
    by (auto simp: reading_def invariant_def)
  then have q: "pastWait (pcMain s)" "pastCloseUrl (pcMain s)" "pastCloseLog (pcMain s)"
    "pcMain s \<noteq> Dispatching"
    by (cases "pcMain s"; simp)+
  with assms(1) p have wg: "wgCount s = 0" and td: "toDispatch s = []"
    and f: "length (filter (\<lambda>r. \<not> snd r) (running s)) = 0"
    by (auto simp: invariant_def)
  from f have "list_all snd (running s)"
    by (auto simp: list_all_iff filter_empty_conv)
  with assms(1) p q wg td show ?thesis
    by (auto simp: settled_def invariant_def)
qed


subsection \<open>No log message is lost\<close>

lemma sum_list_map_update:
  fixes f :: "'a \<Rightarrow> 'b::comm_monoid_add"
  assumes "i < length xs"
  shows "sum_list (map f (xs[i := y])) + f (xs ! i) = sum_list (map f xs) + f y"
  using assms
proof (induction xs arbitrary: i)
  case Nil
  then show ?case by simp
next
  case (Cons x xs)
  show ?case
  proof (cases i)
    case 0
    then show ?thesis by (simp add: ac_simps)
  next
    case (Suc j)
    with Cons.prems have "j < length xs" by simp
    from Cons.IH [OF this] Suc show ?thesis by (simp add: ac_simps)
  qed
qed

lemma conserved_start: "conserved scripts (start scripts)"
  by (simp add: conserved_def start_def)

lemma conserved_stepMain:
  assumes "conserved scripts s"
  shows "conserved scripts (stepMain s)"
  using assms
  by (cases "pcMain s") (auto simp: conserved_def stepMain_def ac_simps split: list.splits)

lemma conserved_stepConsumer:
  assumes "conserved scripts s"
  shows "conserved scripts (stepConsumer s)"
  using assms
  by (auto simp: conserved_def stepConsumer_def split: list.splits)

lemma conserved_stepQuerier:
  assumes "conserved scripts s"
  shows "conserved scripts (stepQuerier i s)"
proof (cases "i < length (running s)")
  case False
  with assms show ?thesis by (simp add: stepQuerier_def)
next
  case True
  obtain acts returned where r: "running s ! i = (acts, returned)"
    by (cases "running s ! i")
  let ?left = "\<lambda>rs. sum_list (map (\<lambda>r. mset (logsOf (fst r))) rs)"
  have upd: "?left ((running s)[i := (rest, b)]) + mset (logsOf acts)
               = ?left (running s) + mset (logsOf rest)" for rest b
    using sum_list_map_update [OF True, of "\<lambda>r. mset (logsOf (fst r))" "(rest, b)"] r
    by simp
  show ?thesis
  proof (cases returned)
    case True
    with r \<open>i < length (running s)\<close> assms show ?thesis by (simp add: stepQuerier_def)
  next
    case False
    show ?thesis
    proof (cases acts)
      case Nil
      with upd [of "[]" True] have "?left ((running s)[i := ([], True)]) = ?left (running s)"
        by simp
      with Nil r False True assms show ?thesis
        by (simp add: conserved_def stepQuerier_def)
    next
      case (Cons a rest)
      show ?thesis
      proof (cases a)
        case (LogSend msg)
        with Cons upd [of rest False]
        have e: "?left (running s) = add_mset msg (?left ((running s)[i := (rest, False)]))"
          by simp
        from assms have "mset (shown s) + mset (logBuf s) + ?left (running s)
            + sum_list (map (\<lambda>a. mset (logsOf a)) (toDispatch s))
          = sum_list (map (\<lambda>a. mset (logsOf a)) scripts)"
          by (simp add: conserved_def)
        then have "mset (shown s) + mset (logBuf s @ [msg])
            + ?left ((running s)[i := (rest, False)])
            + sum_list (map (\<lambda>a. mset (logsOf a)) (toDispatch s))
          = sum_list (map (\<lambda>a. mset (logsOf a)) scripts)"
          unfolding e by simp
        with LogSend Cons r False True assms show ?thesis
          by (simp add: conserved_def stepQuerier_def)
      next
        case (UrlSend urls)
        with Cons upd [of rest False]
        have "?left ((running s)[i := (rest, False)]) = ?left (running s)"
          by simp
        with UrlSend Cons r False True assms show ?thesis
          by (simp add: conserved_def stepQuerier_def)
      qed
    qed
  qed
qed

lemma conserved_exec:
  assumes "conserved scripts s"
  shows "conserved scripts (exec schedule s)"
  using assms
proof (induction schedule arbitrary: s)
  case Nil
  then show ?case by (simp add: exec_def)
next
  case (Cons p schedule)
  from Cons.prems have "conserved scripts (step s p)"
    by (cases p) (simp_all add: step_def conserved_stepMain conserved_stepConsumer
        conserved_stepQuerier)
  from Cons.IH [OF this] show ?case by (simp add: exec_def)
qed

lemma returned_nothing_left:
  assumes "list_all (\<lambda>r. snd r \<longrightarrow> fst r = []) rs" and "list_all snd rs"
  shows "sum_list (map (\<lambda>r. mset (logsOf (fst r))) rs) = {#}"
  using assms by (induction rs) auto

lemma settled_all_shown:
  assumes "invariant scripts s" and "conserved scripts s" and "settled scripts s"
  shows "mset (shown s) = sum_list (map (\<lambda>a. mset (logsOf a)) scripts)"
proof -
  from assms(1,3) have "sum_list (map (\<lambda>r. mset (logsOf (fst r))) (running s)) = {#}"
    by (intro returned_nothing_left) (simp_all add: invariant_def settled_def)
  with assms(2,3) show ?thesis by (simp add: conserved_def settled_def)
qed

subsection \<open>Claim C7\<close>

lemma all_logs: "sum_list (map (\<lambda>a. mset (logsOf a)) scripts) = mset (concat (map logsOf scripts))"
  by (induction scripts) simp_all

text \<open>
  C7: whatever the schedule and whatever the queriers send, no goroutine panics, and in
  any state in which \<open>main\<close> is at the drain loop or past it (lines 577 to 588), or has
  received a message from the results channel, every dispatched querier has returned (the
  wait group is at 0), both channels are closed, the log consumer has returned, the log
  channel is empty, and the messages printed are exactly the messages that the queriers
  sent on it.
\<close>

theorem C7_logs_before_results:
  "\<not> panicked (exec schedule (start scripts))
   \<and> (reading (exec schedule (start scripts)) \<longrightarrow>
        settled scripts (exec schedule (start scripts))
        \<and> mset (shown (exec schedule (start scripts))) = mset (concat (map logsOf scripts)))"
proof (intro conjI impI)
  have i: "invariant scripts (exec schedule (start scripts))"
    by (rule invariant_exec) (rule invariant_start)
  have c: "conserved scripts (exec schedule (start scripts))"
    by (rule conserved_exec) (rule conserved_start)
  from i show "\<not> panicked (exec schedule (start scripts))"
    by (simp add: invariant_def)
  assume r: "reading (exec schedule (start scripts))"
  from invariant_settled [OF i r]
  show "settled scripts (exec schedule (start scripts))" .
  with settled_all_shown [OF i c]
  show "mset (shown (exec schedule (start scripts))) = mset (concat (map logsOf scripts))"
    by (simp add: all_logs)
qed

text \<open>
  C7 at a schedule that runs the goroutines of one domain to the end, the script of the
  querier being the one that the functional model gives for Wayback.
\<close>

theorem C7_witness:
  "pcMain (exec aSchedule (start waybackScripts)) = Ended
   \<and> got (exec aSchedule (start waybackScripts)) = [None]
   \<and> settled waybackScripts (exec aSchedule (start waybackScripts))
   \<and> mset (shown (exec aSchedule (start waybackScripts)))
       = mset (concat (map logsOf waybackScripts))"
proof -
  have e: "pcMain (exec aSchedule (start waybackScripts)) = Ended"
    and g: "got (exec aSchedule (start waybackScripts)) = [None]"
    by code_simp+
  then have "reading (exec aSchedule (start waybackScripts))"
    by (simp add: reading_def)
  with e g C7_logs_before_results [of aSchedule waybackScripts] show ?thesis by simp
qed

text \<open>The script of that querier: its log message, then its result.\<close>

lemma script_of_wayback:
  "script (getWaybackURLs noUrls ''example.com'' False idle)
     = [LogSend (foundMessage ''Wayback'' None), UrlSend None]"
  by code_simp

subsection \<open>The schedules and the functional model\<close>

lemma pastDrain_simps [simp]:
  "pastDrain Dispatching = False" "pastDrain Branching = False" "pastDrain Waiting = False"
  "pastDrain ClosingUrl = False" "pastDrain ClosingLog = False" "pastDrain WaitingLog = False"
  "pastDrain Draining = False" "pastDrain Deciding" "pastDrain Ended"
  by (simp_all add: pastDrain_def)

lemma conservedUrls_start: "conservedUrls scripts (start scripts)"
  by (simp add: conservedUrls_def start_def)

lemma conservedUrls_stepMain:
  assumes "conservedUrls scripts s"
  shows "conservedUrls scripts (stepMain s)"
  using assms
  by (cases "pcMain s") (auto simp: conservedUrls_def stepMain_def ac_simps split: list.splits)

lemma conservedUrls_stepConsumer:
  assumes "conservedUrls scripts s"
  shows "conservedUrls scripts (stepConsumer s)"
  using assms
  by (auto simp: conservedUrls_def stepConsumer_def split: list.splits)

lemma conservedUrls_stepQuerier:
  assumes "conservedUrls scripts s"
  shows "conservedUrls scripts (stepQuerier i s)"
proof (cases "i < length (running s)")
  case False
  with assms show ?thesis by (simp add: stepQuerier_def)
next
  case True
  obtain acts returned where r: "running s ! i = (acts, returned)"
    by (cases "running s ! i")
  let ?left = "\<lambda>rs. sum_list (map (\<lambda>r. mset (urlsIn (fst r))) rs)"
  have upd: "?left ((running s)[i := (rest, b)]) + mset (urlsIn acts)
               = ?left (running s) + mset (urlsIn rest)" for rest b
    using sum_list_map_update [OF True, of "\<lambda>r. mset (urlsIn (fst r))" "(rest, b)"] r
    by simp
  show ?thesis
  proof (cases returned)
    case True
    with r \<open>i < length (running s)\<close> assms show ?thesis by (simp add: stepQuerier_def)
  next
    case False
    show ?thesis
    proof (cases acts)
      case Nil
      with upd [of "[]" True] have "?left ((running s)[i := ([], True)]) = ?left (running s)"
        by simp
      with Nil r False True assms show ?thesis
        by (simp add: conservedUrls_def stepQuerier_def)
    next
      case (Cons a rest)
      show ?thesis
      proof (cases a)
        case (UrlSend urls)
        with Cons upd [of rest False]
        have e: "?left (running s) = add_mset urls (?left ((running s)[i := (rest, False)]))"
          by simp
        from assms have "mset (got s) + mset (urlBuf s) + ?left (running s)
            + sum_list (map (\<lambda>a. mset (urlsIn a)) (toDispatch s))
          = sum_list (map (\<lambda>a. mset (urlsIn a)) scripts)"
          by (simp add: conservedUrls_def)
        then have "mset (got s) + mset (urlBuf s @ [urls])
            + ?left ((running s)[i := (rest, False)])
            + sum_list (map (\<lambda>a. mset (urlsIn a)) (toDispatch s))
          = sum_list (map (\<lambda>a. mset (urlsIn a)) scripts)"
          unfolding e by simp
        with UrlSend Cons r False True assms show ?thesis
          by (simp add: conservedUrls_def stepQuerier_def)
      next
        case (LogSend msg)
        with Cons upd [of rest False]
        have "?left ((running s)[i := (rest, False)]) = ?left (running s)"
          by simp
        with LogSend Cons r False True assms show ?thesis
          by (simp add: conservedUrls_def stepQuerier_def)
      qed
    qed
  qed
qed

lemma conservedUrls_exec:
  assumes "conservedUrls scripts s"
  shows "conservedUrls scripts (exec schedule s)"
  using assms
proof (induction schedule arbitrary: s)
  case Nil
  then show ?case by (simp add: exec_def)
next
  case (Cons p schedule)
  from Cons.prems have "conservedUrls scripts (step s p)"
    by (cases p) (simp_all add: step_def conservedUrls_stepMain conservedUrls_stepConsumer
        conservedUrls_stepQuerier)
  from Cons.IH [OF this] show ?case by (simp add: exec_def)
qed

lemma drainedOut_start: "drainedOut (start scripts)"
  by (simp add: drainedOut_def start_def allAbsent_def)

lemma drainedOut_stepMain:
  assumes "drainedOut s"
  shows "drainedOut (stepMain s)"
  using assms
  by (cases "pcMain s") (auto simp: drainedOut_def stepMain_def allAbsent_def split: list.splits)

lemma drainedOut_stepConsumer:
  assumes "drainedOut s"
  shows "drainedOut (stepConsumer s)"
  using assms
  by (auto simp: drainedOut_def stepConsumer_def split: list.splits)

lemma drainedOut_stepQuerier:
  assumes "invariant scripts s" and "drainedOut s"
  shows "drainedOut (stepQuerier i s)"
proof (cases "i < length (running s)")
  case False
  with assms show ?thesis by (simp add: stepQuerier_def)
next
  case True
  obtain acts returned where r: "running s ! i = (acts, returned)"
    by (cases "running s ! i")
  show ?thesis
  proof (cases returned)
    case True
    with r \<open>i < length (running s)\<close> assms show ?thesis by (simp add: stepQuerier_def)
  next
    case False
    with r have r': "running s ! i = (acts, False)" by simp
    from assms(1) have wg: "wgCount s = length (filter (\<lambda>r. \<not> snd r) (running s))"
      by (simp add: invariant_def)
    from unreturned_positive [OF True r'] wg have pos: "0 < wgCount s" by simp
    with assms(1) have "\<not> pastWait (pcMain s)" by (auto simp: invariant_def)
    then have "\<not> pastDrain (pcMain s)" by (cases "pcMain s"; simp)
    with assms(2) True r' show ?thesis
      by (auto simp: drainedOut_def stepQuerier_def split: list.splits action.splits)
  qed
qed

lemma invariants_exec:
  assumes "invariant scripts s" and "drainedOut s"
  shows "drainedOut (exec schedule s)"
  using assms
proof (induction schedule arbitrary: s)
  case Nil
  then show ?case by (simp add: exec_def)
next
  case (Cons p schedule)
  from Cons.prems have d: "drainedOut (step s p)"
    by (cases p) (simp_all add: step_def drainedOut_stepMain drainedOut_stepConsumer
        drainedOut_stepQuerier)
  from Cons.prems have i: "invariant scripts (step s p)" by (simp add: invariant_step)
  from Cons.IH [OF i d] show ?case by (simp add: exec_def)
qed

lemma returned_no_urls_left:
  assumes "list_all (\<lambda>r. snd r \<longrightarrow> fst r = []) rs" and "list_all snd rs"
  shows "sum_list (map (\<lambda>r. mset (urlsIn (fst r))) rs) = {#}"
  using assms by (induction rs) auto

lemma urlsIn_script: "urlsIn (script g) = ch g"
proof -
  have a: "urlsIn (map LogSend ms @ rest) = urlsIn rest" for ms rest
    by (induction ms) simp_all
  have b: "urlsIn (map UrlSend us) = us" for us
    by (induction us) simp_all
  show ?thesis by (simp add: script_def a b)
qed

lemma all_urls:
  "sum_list (map ((\<lambda>a. mset (urlsIn a)) \<circ> script) gs) = mset (concat (map ch gs))"
  by (induction gs) (simp_all add: urlsIn_script)

text \<open>
  Whatever the schedule, when \<open>main\<close> has decided it has received the messages that the
  goroutines sent, each once, in some order; \<open>domainSuccess\<close> and the URLs to insert are
  those that the functional model computes from the messages taken goroutine by goroutine.
\<close>

theorem every_schedule_drains_the_same:
  assumes "pcMain (exec schedule (start (map script gs))) = Ended"
  shows "mset (got (exec schedule (start (map script gs)))) = mset (concat (map ch gs))"
    and "urlsOf (got (exec schedule (start (map script gs)))) = urlsOf (concat (map ch gs))"
    and "success (exec schedule (start (map script gs)))
           = fst (drain (concat (map ch gs)) False m)"
proof -
  let ?s = "exec schedule (start (map script gs))"
  have i: "invariant (map script gs) ?s"
    by (rule invariant_exec) (rule invariant_start)
  have c: "conservedUrls (map script gs) ?s"
    by (rule conservedUrls_exec) (rule conservedUrls_start)
  have d: "drainedOut ?s"
    by (rule invariants_exec) (rule invariant_start, rule drainedOut_start)
  from assms have "reading ?s" by (simp add: reading_def)
  from invariant_settled [OF i this] have st: "settled (map script gs) ?s" .
  with i have "sum_list (map (\<lambda>r. mset (urlsIn (fst r))) (running ?s)) = {#}"
    by (intro returned_no_urls_left) (simp_all add: invariant_def settled_def)
  moreover from d assms have "urlBuf ?s = []" by (simp add: drainedOut_def)
  ultimately show g: "mset (got ?s) = mset (concat (map ch gs))"
    using c st by (simp add: conservedUrls_def settled_def all_urls)
  then have e: "set (got ?s) = set (concat (map ch gs))" by (rule mset_eq_setD)
  then show "urlsOf (got ?s) = urlsOf (concat (map ch gs))"
    by (simp add: urlsOf_def)
  from e have "allAbsent (got ?s) = allAbsent (concat (map ch gs))"
    by (simp add: allAbsent_def list_all_iff)
  with d show "success ?s = fst (drain (concat (map ch gs)) False m)"
    by (simp add: drainedOut_def drain_success)
qed

section \<open>\<open>main\<close> and the watcher\<close>

subsection \<open>Runs of the machine\<close>

lemma range_go_append_go: "range_go (append_go acc x) = range_go acc @ [x]"
  by (simp add: range_go_def append_go_def split: option.splits)

lemma run_Nil [simp]: "run env config fl cc [] s = s"
  by (simp add: run_def)

lemma run_Cons [simp]:
  "run env config fl cc (a # schedule) s = run env config fl cc schedule (advance env config fl cc s a)"
  by (simp add: run_def)

lemma run_append:
  "run env config fl cc (xs @ ys) s = run env config fl cc ys (run env config fl cc xs s)"
  by (simp add: run_def)

lemma run_replicate_add:
  "run env config fl cc (replicate (a + b) x) s
     = run env config fl cc (replicate b x) (run env config fl cc (replicate a x) s)"
  by (simp add: replicate_add run_append)

lemma run_exited: "exited s \<noteq> None \<Longrightarrow> run env config fl cc schedule s = s"
  by (induction schedule) (simp_all add: advance_def)

lemma advance_Driver:
  "exited s = None \<Longrightarrow> advance env config fl cc s Driver = mainStep env config fl cc s"
  by (simp add: advance_def)

lemma advance_Watcher:
  "exited s = None \<Longrightarrow> advance env config fl cc s Watcher = watcherStep fl cc s"
  by (simp add: advance_def)

subsection \<open>The runs of \<open>main\<close> are runs of the machine\<close>

text \<open>
  With \<open>main\<close> alone taking steps, the machine goes through the loops of lines 577 to
  584 as \<open>drain\<close> does, through an iteration as \<open>processDomain\<close> does, and through the
  lines as \<open>mainLoop\<close> does.
\<close>

lemma range_urls_loop:
  assumes "atMain s = RangeUrls msgs us" and "exited s = None"
  shows "\<exists>k. run env config fl cc (replicate k Driver) s
               = s\<lparr>vars := (vars s)\<lparr>finalUrlSet := foldl insertUrl (finalUrlSet (vars s)) us\<rparr>,
                   atMain := RangeChannel msgs\<rparr>"
  using assms
proof (induction us arbitrary: s)
  case Nil
  then have "run env config fl cc (replicate 1 Driver) s
               = s\<lparr>vars := (vars s)\<lparr>finalUrlSet := foldl insertUrl (finalUrlSet (vars s)) []\<rparr>,
                   atMain := RangeChannel msgs\<rparr>"
    by (simp add: advance_Driver mainStep_def)
  then show ?case by blast
next
  case (Cons u us)
  let ?s2 = "s\<lparr>vars := (vars s)\<lparr>finalUrlSet := insertUrl (finalUrlSet (vars s)) u\<rparr>,
               atMain := RangeUrls msgs us\<rparr>"
  from Cons.prems have two: "run env config fl cc (replicate 2 Driver) s = ?s2"
    by (simp add: numeral_2_eq_2 advance_Driver mainStep_def)
  from Cons.prems have "atMain ?s2 = RangeUrls msgs us" "exited ?s2 = None" by simp_all
  from Cons.IH [OF this] obtain k where
    k: "run env config fl cc (replicate k Driver) ?s2
          = ?s2\<lparr>vars := (vars ?s2)\<lparr>finalUrlSet := foldl insertUrl (finalUrlSet (vars ?s2)) us\<rparr>,
                atMain := RangeChannel msgs\<rparr>" by blast
  have "run env config fl cc (replicate (2 + k) Driver) s
          = s\<lparr>vars := (vars s)\<lparr>finalUrlSet := foldl insertUrl (finalUrlSet (vars s)) (u # us)\<rparr>,
              atMain := RangeChannel msgs\<rparr>"
    unfolding run_replicate_add two k by simp
  then show ?case by blast
qed

lemma range_channel_loop:
  assumes "atMain s = RangeChannel msgs" and "exited s = None"
  shows "\<exists>k. run env config fl cc (replicate k Driver) s
               = s\<lparr>curSuccess := fst (drain msgs (curSuccess s) (finalUrlSet (vars s))),
                   vars := (vars s)
                     \<lparr>finalUrlSet := snd (drain msgs (curSuccess s) (finalUrlSet (vars s))),
                      drained := drained (vars s) @ msgs\<rparr>,
                   atMain := FailedCheck\<rparr>"
  using assms
proof (induction msgs arbitrary: s)
  case Nil
  then have "run env config fl cc (replicate 1 Driver) s
               = s\<lparr>curSuccess := fst (drain [] (curSuccess s) (finalUrlSet (vars s))),
                   vars := (vars s)
                     \<lparr>finalUrlSet := snd (drain [] (curSuccess s) (finalUrlSet (vars s))),
                      drained := drained (vars s) @ []\<rparr>,
                   atMain := FailedCheck\<rparr>"
    by (simp add: advance_Driver mainStep_def)
  then show ?case by blast
next
  case (Cons urls rest)
  let ?s1 = "s\<lparr>curSuccess := (if urls \<noteq> None then True else curSuccess s),
               vars := (vars s)\<lparr>drained := drained (vars s) @ [urls]\<rparr>,
               atMain := RangeUrls rest (range_go urls)\<rparr>"
  from Cons.prems have one: "run env config fl cc (replicate 1 Driver) s = ?s1"
    by (simp add: advance_Driver mainStep_def)
  from Cons.prems have "atMain ?s1 = RangeUrls rest (range_go urls)" "exited ?s1 = None"
    by simp_all
  from range_urls_loop [OF this, of env config fl cc] obtain k1 where
    k1: "run env config fl cc (replicate k1 Driver) ?s1
          = ?s1\<lparr>vars := (vars ?s1)
                   \<lparr>finalUrlSet := foldl insertUrl (finalUrlSet (vars ?s1)) (range_go urls)\<rparr>,
                atMain := RangeChannel rest\<rparr>" by blast
  let ?s2 = "?s1\<lparr>vars := (vars ?s1)
                   \<lparr>finalUrlSet := foldl insertUrl (finalUrlSet (vars ?s1)) (range_go urls)\<rparr>,
                atMain := RangeChannel rest\<rparr>"
  from Cons.prems have "atMain ?s2 = RangeChannel rest" "exited ?s2 = None" by simp_all
  from Cons.IH [OF this] obtain k2 where
    k2: "run env config fl cc (replicate k2 Driver) ?s2
          = ?s2\<lparr>curSuccess := fst (drain rest (curSuccess ?s2) (finalUrlSet (vars ?s2))),
                vars := (vars ?s2)
                  \<lparr>finalUrlSet := snd (drain rest (curSuccess ?s2) (finalUrlSet (vars ?s2))),
                   drained := drained (vars ?s2) @ rest\<rparr>,
                atMain := FailedCheck\<rparr>" by blast
  have "run env config fl cc (replicate (1 + k1 + k2) Driver) s
          = s\<lparr>curSuccess := fst (drain (urls # rest) (curSuccess s) (finalUrlSet (vars s))),
              vars := (vars s)
                \<lparr>finalUrlSet := snd (drain (urls # rest) (curSuccess s) (finalUrlSet (vars s))),
                 drained := drained (vars s) @ (urls # rest)\<rparr>,
              atMain := FailedCheck\<rparr>"
    unfolding run_replicate_add one k1 k2 by simp
  then show ?case by blast
qed


lemma untouched_refl [simp]: "untouched s s"
  by (simp add: untouched_def)

lemma untouched_trans: "untouched s s' \<Longrightarrow> untouched s' s'' \<Longrightarrow> untouched s s''"
  by (simp add: untouched_def)

lemma one_domain:
  assumes at: "atMain s = LoopHead" and ex: "exited s = None" and todo: "toDo s = line # rest"
    and ok: "TrimSpace line \<noteq> []" "cleanDomainLine (TrimSpace line) \<noteq> []"
      "isValidDomain (cleanDomainLine (TrimSpace line))"
    and pd: "processDomain (env (lineNo s)) config (excludedMap (excludeSources fl)) (silent fl)
               (lineNo s + 1 < lineCount s) (cleanDomainLine (TrimSpace line)) (vars s) = Some st'"
  shows "\<exists>k s'. run env config fl cc (replicate k Driver) s = s' \<and> atMain s' = LoopHead
                \<and> toDo s' = rest \<and> lineNo s' = lineNo s + 1 \<and> vars s' = st'
                \<and> untouched s s'"
proof -
  let ?d = "cleanDomainLine (TrimSpace line)"
  let ?gs = "dispatched (env (lineNo s)) config (excludedMap (excludeSources fl)) (silent fl)
               (apiKeyIndex (vars s)) ?d"
  from pd obtain finished where w: "waited ?gs = Some finished"
    by (auto simp: processDomain_def Let_def split: option.splits)
  let ?s1 = "s\<lparr>toDo := rest, curDomain := ?d, curSuccess := False, atMain := AtWait ?gs\<rparr>"
  let ?s2 = "?s1\<lparr>curCount := length ?gs,
                 vars := (vars s)\<lparr>printed := printed (vars s) @ concat (map logChan finished)\<rparr>,
                 atMain := RangeChannel (concat (map ch finished))\<rparr>"
  from at ex todo ok w have two: "run env config fl cc (replicate 2 Driver) s = ?s2"
    by (simp add: numeral_2_eq_2 advance_Driver mainStep_def)
  have "atMain ?s2 = RangeChannel (concat (map ch finished))" "exited ?s2 = None"
    using ex by simp_all
  from range_channel_loop [OF this, of env config fl cc] obtain k where
    k: "run env config fl cc (replicate k Driver) ?s2
          = ?s2\<lparr>curSuccess := fst (drain (concat (map ch finished)) (curSuccess ?s2)
                                    (finalUrlSet (vars ?s2))),
                vars := (vars ?s2)
                  \<lparr>finalUrlSet := snd (drain (concat (map ch finished)) (curSuccess ?s2)
                                     (finalUrlSet (vars ?s2))),
                   drained := drained (vars ?s2) @ concat (map ch finished)\<rparr>,
                atMain := FailedCheck\<rparr>" by blast
  let ?s3 = "?s2\<lparr>curSuccess := fst (drain (concat (map ch finished)) (curSuccess ?s2)
                                    (finalUrlSet (vars ?s2))),
                vars := (vars ?s2)
                  \<lparr>finalUrlSet := snd (drain (concat (map ch finished)) (curSuccess ?s2)
                                     (finalUrlSet (vars ?s2))),
                   drained := drained (vars ?s2) @ concat (map ch finished)\<rparr>,
                atMain := FailedCheck\<rparr>"
  let ?s' = "run env config fl cc (replicate 2 Driver) ?s3"
  have all: "run env config fl cc (replicate (2 + k + 2) Driver) s = ?s'"
    unfolding run_replicate_add two k by simp
  from ex have e3: "exited ?s3 = None" by simp
  have s': "atMain ?s' = LoopHead \<and> toDo ?s' = rest \<and> lineNo ?s' = lineNo s + 1
             \<and> untouched s ?s'"
    using ex by (simp add: numeral_2_eq_2 advance_Driver mainStep_def untouched_def)
  from pd w have "vars ?s' = st'"
    using ex
    by (cases "vars s")
       (auto simp: numeral_2_eq_2 advance_Driver mainStep_def processDomain_def Let_def
          case_prod_beta)
  with all s' show ?thesis by blast
qed


lemma loop_head_skip:
  assumes "atMain s = LoopHead" and "exited s = None" and "toDo s = line # rest"
    and "TrimSpace line = [] \<or> cleanDomainLine (TrimSpace line) = []
         \<or> \<not> isValidDomain (cleanDomainLine (TrimSpace line))"
  shows "run env config fl cc (replicate 1 Driver) s = s\<lparr>toDo := rest, lineNo := lineNo s + 1\<rparr>"
  using assms by (auto simp: advance_Driver mainStep_def)

lemma mainLoop_skip:
  "TrimSpace line = [] \<or> cleanDomainLine (TrimSpace line) = []
     \<or> \<not> isValidDomain (cleanDomainLine (TrimSpace line)) \<Longrightarrow>
   mainLoop env config ex q n i (line # rest) st = mainLoop env config ex q n (i + 1) rest st"
  by auto

lemma mainLoop_process:
  "TrimSpace line \<noteq> [] \<Longrightarrow> cleanDomainLine (TrimSpace line) \<noteq> [] \<Longrightarrow>
   isValidDomain (cleanDomainLine (TrimSpace line)) \<Longrightarrow>
   mainLoop env config ex q n i (line # rest) st
     = (case processDomain (env i) config ex q (i + 1 < n) (cleanDomainLine (TrimSpace line)) st of
          None \<Rightarrow> None
        | Some st1 \<Rightarrow> mainLoop env config ex q n (i + 1) rest st1)"
  by simp

lemma main_loop_steps:
  assumes "mainLoop env config (excludedMap (excludeSources fl)) (silent fl) n i lines st
             = Some st'"
    and "atMain s = LoopHead" and "exited s = None" and "toDo s = lines @ later"
    and "lineNo s = i" and "lineCount s = n" and "vars s = st"
  shows "\<exists>k s'. run env config fl cc (replicate k Driver) s = s' \<and> atMain s' = LoopHead
                \<and> toDo s' = later \<and> lineNo s' = i + length lines \<and> vars s' = st'
                \<and> untouched s s'"
  using assms
proof (induction lines arbitrary: i st s)
  case Nil
  then have "run env config fl cc (replicate 0 Driver) s = s \<and> atMain s = LoopHead
                \<and> toDo s = later \<and> lineNo s = i + length ([] :: string list) \<and> vars s = st'
                \<and> untouched s s" by simp
  then show ?case by blast
next
  case (Cons line rest)
  let ?d = "cleanDomainLine (TrimSpace line)"
  from Cons.prems have todo: "toDo s = line # (rest @ later)" by simp
  show ?case
  proof (cases "TrimSpace line = [] \<or> ?d = [] \<or> \<not> isValidDomain ?d")
    case True
    let ?s1 = "s\<lparr>toDo := rest @ later, lineNo := lineNo s + 1\<rparr>"
    from loop_head_skip [OF Cons.prems(2,3) todo True, of env config fl cc]
    have one: "run env config fl cc (replicate 1 Driver) s = ?s1" .
    from Cons.prems(1)
    have ml: "mainLoop env config (excludedMap (excludeSources fl)) (silent fl) n (i + 1) rest st
                = Some st'" unfolding mainLoop_skip [OF True] .
    from Cons.prems have "atMain ?s1 = LoopHead" "exited ?s1 = None" "toDo ?s1 = rest @ later"
      "lineNo ?s1 = i + 1" "lineCount ?s1 = n" "vars ?s1 = st" by simp_all
    from Cons.IH [OF ml this] obtain k s' where
      k: "run env config fl cc (replicate k Driver) ?s1 = s'" "atMain s' = LoopHead"
        "toDo s' = later" "lineNo s' = i + 1 + length rest" "vars s' = st'" "untouched ?s1 s'"
      by blast
    have r: "run env config fl cc (replicate (1 + k) Driver) s = s'"
      unfolding run_replicate_add one k(1) ..
    from k(6) have u: "untouched s s'" by (simp add: untouched_def)
    from k(4) have ln: "lineNo s' = i + length (line # rest)" by simp
    from r k(2,3) ln k(5) u show ?thesis by blast
  next
    case False
    then have ok: "TrimSpace line \<noteq> []" "?d \<noteq> []" "isValidDomain ?d" by simp_all
    from Cons.prems(1) [unfolded mainLoop_process [OF ok]] obtain st1 where
      pd: "processDomain (env i) config (excludedMap (excludeSources fl)) (silent fl) (i + 1 < n)
             ?d st = Some st1"
      and ml: "mainLoop env config (excludedMap (excludeSources fl)) (silent fl) n (i + 1) rest st1
                = Some st'"
      by (auto split: option.splits)
    from pd Cons.prems
    have pd': "processDomain (env (lineNo s)) config (excludedMap (excludeSources fl)) (silent fl)
               (lineNo s + 1 < lineCount s) ?d (vars s) = Some st1" by simp
    from one_domain [where env = env and s = s and cc = cc, OF Cons.prems(2,3) todo ok pd']
    obtain k1 s1 where
      k1: "run env config fl cc (replicate k1 Driver) s = s1" "atMain s1 = LoopHead"
        "toDo s1 = rest @ later" "lineNo s1 = lineNo s + 1" "vars s1 = st1" "untouched s s1"
      by blast
    from k1 Cons.prems have "atMain s1 = LoopHead" "exited s1 = None" "toDo s1 = rest @ later"
      "lineNo s1 = i + 1" "lineCount s1 = n" "vars s1 = st1"
      by (simp_all add: untouched_def)
    from Cons.IH [OF ml this] obtain k s' where
      k: "run env config fl cc (replicate k Driver) s1 = s'" "atMain s' = LoopHead"
        "toDo s' = later" "lineNo s' = i + 1 + length rest" "vars s' = st'" "untouched s1 s'"
      by blast
    have r: "run env config fl cc (replicate (k1 + k) Driver) s = s'"
      unfolding run_replicate_add k1(1) k(1) ..
    from k1(6) k(6) have u: "untouched s s'" by (rule untouched_trans)
    from k(4) have ln: "lineNo s' = i + length (line # rest)" by simp
    from r k(2,3) ln k(5) u show ?thesis by blast
  qed
qed

text \<open>The four steps of \<open>main\<close> after the loop are lines 603 to 626.\<close>

lemma finish_steps:
  assumes "atMain s = LoopHead" and "exited s = None" and "toDo s = []" and "files s = []"
  shows "exited (run env config fl cc (replicate 4 Driver) s)
           = Some (exitCode (finish fl cc (outputs s) (vars s)))
         \<and> files (run env config fl cc (replicate 4 Driver) s)
             = written (finish fl cc (outputs s) (vars s))
         \<and> outputs (run env config fl cc (replicate 4 Driver) s)
             = stdout (finish fl cc (outputs s) (vars s))
         \<and> vars (run env config fl cc (replicate 4 Driver) s)
             = final (finish fl cc (outputs s) (vars s))"
  using assms
  by (cases "failedDomains (vars s) = []"; cases "cc ''failed_domains.txt''"; cases "silent fl";
      cases "cc (outputFile fl)")
     (simp_all add: eval_nat_numeral advance_def mainStep_def finish_def writeLinesToFile_def
        fatal_def)


lemma launch_fields [simp]:
  "atMain (launch fl domains) = LoopHead" "exited (launch fl domains) = None"
  "toDo (launch fl domains) = domains" "lineNo (launch fl domains) = 0"
  "lineCount (launch fl domains) = length domains" "vars (launch fl domains) = initial"
  "files (launch fl domains) = []" "signalled (launch fl domains) = False"
  "atWatcher (launch fl domains) = Receive"
  "outputs (launch fl domains) = (if \<not> silent fl then [Banner] else [])"
  by (simp_all add: launch_def)

text \<open>
  A run of \<open>main\<close> without a signal is the run of the machine in which \<open>main\<close> alone
  takes steps.
\<close>

lemma main_is_a_run:
  assumes m: "main fl (Inr config) (Inr domains) env cc None = Some out"
    and v: "\<not> versionFlag fl" and ne: "domains \<noteq> []"
  shows "\<exists>k. exited (run env config fl cc (replicate k Driver) (launch fl domains))
               = Some (exitCode out)
             \<and> files (run env config fl cc (replicate k Driver) (launch fl domains))
                 = written out
             \<and> outputs (run env config fl cc (replicate k Driver) (launch fl domains))
                 = stdout out
             \<and> vars (run env config fl cc (replicate k Driver) (launch fl domains))
                 = final out"
proof -
  let ?out0 = "if \<not> silent fl then [Banner] else []"
  from m obtain st where
    ml: "mainLoop env config (excludedMap (excludeSources fl)) (silent fl) (length domains) 0
           domains initial = Some st"
    and out: "out = finish fl cc ?out0 st"
    unfolding main_uninterrupted [OF v ne] by auto
  from main_loop_steps [where s = "launch fl domains" and later = "[]" and cc = cc, OF ml]
  obtain k s' where
    k: "run env config fl cc (replicate k Driver) (launch fl domains) = s'"
      "atMain s' = LoopHead" "toDo s' = []" "vars s' = st" "untouched (launch fl domains) s'"
    by auto
  from k(5) have u: "exited s' = None" "files s' = []" "outputs s' = ?out0"
    by (simp_all add: untouched_def)
  from finish_steps [OF k(2) u(1) k(3) u(2), of env config fl cc]
  have "exited (run env config fl cc (replicate (k + 4) Driver) (launch fl domains))
               = Some (exitCode out)
             \<and> files (run env config fl cc (replicate (k + 4) Driver) (launch fl domains))
                 = written out
             \<and> outputs (run env config fl cc (replicate (k + 4) Driver) (launch fl domains))
                 = stdout out
             \<and> vars (run env config fl cc (replicate (k + 4) Driver) (launch fl domains))
                 = final out"
    unfolding run_replicate_add k(1) out u(3) [symmetric] k(4) [symmetric] .
  then show ?thesis by blast
qed

text \<open>The watcher alone, from the signal to the end of the process.\<close>

lemma range_set_loop:
  assumes "atWatcher s = RangeSet p acc" and "p \<le> length (finalUrlSet (vars s))"
    and "exited s = None" and "\<not> writing s"
  shows "run env config fl cc (replicate (length (finalUrlSet (vars s)) - p + 1) Watcher) s
           = s\<lparr>atWatcher := WriteUrls (foldl append_go acc (drop p (finalUrlSet (vars s))))\<rparr>"
  using assms
proof (induction "length (finalUrlSet (vars s)) - p" arbitrary: p acc s)
  case 0
  then show ?case by (simp add: advance_Watcher watcherStep_def)
next
  case (Suc d)
  let ?F = "finalUrlSet (vars s)"
  let ?s1 = "s\<lparr>atWatcher := RangeSet (p + 1) (append_go acc (?F ! p))\<rparr>"
  from Suc have lt: "p < length ?F" by simp
  with Suc.prems have one: "advance env config fl cc s Watcher = ?s1"
    by (simp add: advance_Watcher watcherStep_def)
  from Suc.hyps(2) have d: "d = length (finalUrlSet (vars ?s1)) - (p + 1)" by simp
  from Suc.prems lt have "atWatcher ?s1 = RangeSet (p + 1) (append_go acc (?F ! p))"
    "p + 1 \<le> length (finalUrlSet (vars ?s1))" "exited ?s1 = None" "\<not> writing ?s1"
    by (simp_all add: writing_def)
  from Suc.hyps(1) [OF d this]
  have "run env config fl cc (replicate (length ?F - (p + 1) + 1) Watcher) ?s1
          = ?s1\<lparr>atWatcher := WriteUrls (foldl append_go (append_go acc (?F ! p))
                                          (drop (p + 1) ?F))\<rparr>" by simp
  moreover from lt have "drop p ?F = ?F ! p # drop (p + 1) ?F"
    by (simp add: Cons_nth_drop_Suc)
  moreover from lt have "length ?F - p + 1 = Suc (length ?F - (p + 1) + 1)" by simp
  ultimately show ?case using one by simp
qed

lemma range_go_foldl_append_go: "range_go (foldl append_go acc xs) = range_go acc @ xs"
  by (induction xs arbitrary: acc) (simp_all add: range_go_append_go)


lemma range_go_collected: "range_go (foldl append_go None xs) = xs"
  unfolding range_go_foldl_append_go by (simp add: range_go_def)

lemma watcher_tail:
  assumes "atWatcher s = WriteUrls acc" and "exited s = None" and "files s = []"
    and "range_go acc = finalUrlSet (vars s)"
  shows "exited (run env config fl cc (replicate 4 Watcher) s)
           = Some (exitCode (onInterrupt fl cc (outputs s) (vars s)))
         \<and> files (run env config fl cc (replicate 4 Watcher) s)
             = written (onInterrupt fl cc (outputs s) (vars s))
         \<and> outputs (run env config fl cc (replicate 4 Watcher) s)
             = stdout (onInterrupt fl cc (outputs s) (vars s))
         \<and> vars (run env config fl cc (replicate 4 Watcher) s)
             = final (onInterrupt fl cc (outputs s) (vars s))"
  using assms
  by (cases "failedDomains (vars s) = []"; cases "cc ''failed_domains.txt''";
      cases "cc (outputFile fl)")
     (simp_all add: eval_nat_numeral advance_def watcherStep_def onInterrupt_def
        writeLinesToFile_def fatal_def)

lemma watcher_steps:
  assumes r: "atWatcher s = Receive" and sg: "signalled s" and ex: "exited s = None"
    and nw: "\<not> writing s" and fs: "files s = []"
  shows "\<exists>k. exited (run env config fl cc (replicate k Watcher) s)
               = Some (exitCode (onInterrupt fl cc (outputs s) (vars s)))
             \<and> files (run env config fl cc (replicate k Watcher) s)
                 = written (onInterrupt fl cc (outputs s) (vars s))
             \<and> outputs (run env config fl cc (replicate k Watcher) s)
                 = stdout (onInterrupt fl cc (outputs s) (vars s))
             \<and> vars (run env config fl cc (replicate k Watcher) s)
                 = final (onInterrupt fl cc (outputs s) (vars s))"
proof -
  let ?F = "finalUrlSet (vars s)"
  let ?s1 = "s\<lparr>atWatcher := RangeSet 0 None\<rparr>"
  let ?s2 = "?s1\<lparr>atWatcher := WriteUrls (foldl append_go None (drop 0 ?F))\<rparr>"
  from r sg ex have one: "run env config fl cc (replicate 1 Watcher) s = ?s1"
    by (simp add: advance_Watcher watcherStep_def)
  from ex nw have "atWatcher ?s1 = RangeSet 0 None" "0 \<le> length (finalUrlSet (vars ?s1))"
    "exited ?s1 = None" "\<not> writing ?s1" by (simp_all add: writing_def)
  from range_set_loop [OF this, of env config fl cc]
  have "run env config fl cc (replicate (length ?F + 1) Watcher) ?s1 = ?s2" by simp
  moreover define n where "n = length ?F + 1"
  ultimately have two: "run env config fl cc (replicate n Watcher) ?s1 = ?s2" by simp
  from ex fs have "atWatcher ?s2 = WriteUrls (foldl append_go None (drop 0 ?F))"
    "exited ?s2 = None" "files ?s2 = []"
    "range_go (foldl append_go None (drop 0 ?F)) = finalUrlSet (vars ?s2)"
    by (simp_all add: range_go_collected)
  from watcher_tail [OF this, of env config fl cc]
  have "exited (run env config fl cc (replicate (1 + n + 4) Watcher) s)
               = Some (exitCode (onInterrupt fl cc (outputs s) (vars s)))
             \<and> files (run env config fl cc (replicate (1 + n + 4) Watcher) s)
                 = written (onInterrupt fl cc (outputs s) (vars s))
             \<and> outputs (run env config fl cc (replicate (1 + n + 4) Watcher) s)
                 = stdout (onInterrupt fl cc (outputs s) (vars s))
             \<and> vars (run env config fl cc (replicate (1 + n + 4) Watcher) s)
                 = final (onInterrupt fl cc (outputs s) (vars s))"
    unfolding run_replicate_add one two by simp
  then show ?thesis by blast
qed

text \<open>
  A run of \<open>main\<close> with the signal between two iterations is the run of the machine in
  which \<open>main\<close> takes steps up to the head of the loop, the signal arrives, and from then
  on the watcher alone takes steps.
\<close>

lemma main_interrupted_is_a_run:
  assumes m: "main fl (Inr config) (Inr domains) env cc (Some j) = Some out"
    and v: "\<not> versionFlag fl" and j: "j < length domains"
  shows "\<exists>k k'.
           exited (run env config fl cc (replicate k Driver @ Signal # replicate k' Watcher)
                     (launch fl domains)) = Some (exitCode out)
           \<and> files (run env config fl cc (replicate k Driver @ Signal # replicate k' Watcher)
                      (launch fl domains)) = written out
           \<and> outputs (run env config fl cc (replicate k Driver @ Signal # replicate k' Watcher)
                        (launch fl domains)) = stdout out
           \<and> vars (run env config fl cc (replicate k Driver @ Signal # replicate k' Watcher)
                     (launch fl domains)) = final out"
proof -
  let ?out0 = "if \<not> silent fl then [Banner] else []"
  from m obtain st where
    ml: "mainLoop env config (excludedMap (excludeSources fl)) (silent fl) (length domains) 0
           (take j domains) initial = Some st"
    and out: "out = onInterrupt fl cc ?out0 st"
    unfolding main_interrupted [OF v j] by auto
  from main_loop_steps [where s = "launch fl domains" and later = "drop j domains" and cc = cc,
      OF ml]
  obtain k s' where
    k: "run env config fl cc (replicate k Driver) (launch fl domains) = s'"
      "atMain s' = LoopHead" "vars s' = st" "untouched (launch fl domains) s'"
    by auto
  from k(4) have u: "exited s' = None" "files s' = []" "outputs s' = ?out0"
    "atWatcher s' = Receive" by (simp_all add: untouched_def)
  let ?s'' = "s'\<lparr>signalled := True\<rparr>"
  from u k(2) have "atWatcher ?s'' = Receive" "signalled ?s''" "exited ?s'' = None"
    "\<not> writing ?s''" "files ?s'' = []" by (simp_all add: writing_def)
  from watcher_steps [OF this, of env config fl cc] obtain k' where
    k': "exited (run env config fl cc (replicate k' Watcher) ?s'')
               = Some (exitCode (onInterrupt fl cc (outputs ?s'') (vars ?s'')))
             \<and> files (run env config fl cc (replicate k' Watcher) ?s'')
                 = written (onInterrupt fl cc (outputs ?s'') (vars ?s''))
             \<and> outputs (run env config fl cc (replicate k' Watcher) ?s'')
                 = stdout (onInterrupt fl cc (outputs ?s'') (vars ?s''))
             \<and> vars (run env config fl cc (replicate k' Watcher) ?s'')
                 = final (onInterrupt fl cc (outputs ?s'') (vars ?s''))" by blast
  have o: "onInterrupt fl cc (outputs ?s'') (vars ?s'') = out"
    using u(3) k(3) out by simp
  have "run env config fl cc (replicate k Driver @ Signal # replicate k' Watcher)
          (launch fl domains) = run env config fl cc (replicate k' Watcher) ?s''"
    unfolding run_append k(1) using u(1) by (simp add: advance_def)
  with k' o show ?thesis by metis
qed

subsection \<open>What holds under every schedule\<close>

lemma prefix_insertUrl: "prefix xs m \<Longrightarrow> prefix xs (insertUrl m u)"
  by (simp add: insertUrl_def)

lemma take_insertUrl: "p \<le> length m \<Longrightarrow> take p (insertUrl m u) = take p m"
  by (simp add: insertUrl_def)

lemma length_insertUrl: "length m \<le> length (insertUrl m u)"
  by (simp add: insertUrl_def)

lemma consistent_launch: "consistent fl (launch fl domains)"
  by (simp add: consistent_def launch_def initial_def writing_def)

text \<open>What a step of \<open>main\<close> can change.\<close>

lemma mainStep_frame:
  "atWatcher (mainStep env config fl cc s) = atWatcher s
   \<and> (finalUrlSet (vars (mainStep env config fl cc s)) = finalUrlSet (vars s)
        \<or> (\<exists>u. finalUrlSet (vars (mainStep env config fl cc s))
                  = insertUrl (finalUrlSet (vars s)) u))
   \<and> (failedDomains (vars (mainStep env config fl cc s)) = failedDomains (vars s)
        \<or> (\<exists>d. failedDomains (vars (mainStep env config fl cc s))
                  = failedDomains (vars s) @ [d]))
   \<and> (files (mainStep env config fl cc s) = files s
        \<or> (failedDomains (vars s) \<noteq> []
            \<and> files (mainStep env config fl cc s)
                = files s @ [(''failed_domains.txt'', failedDomains (vars s))])
        \<or> files (mainStep env config fl cc s)
             = files s @ [(outputFile fl, finalUrlSet (vars s))])
   \<and> (exited (mainStep env config fl cc s) = exited s
        \<or> exited (mainStep env config fl cc s) = Some 1
        \<or> (exited (mainStep env config fl cc s) = Some 0
            \<and> atMain (mainStep env config fl cc s) = Return))"
  by (cases "atMain s")
     (auto simp: mainStep_def writeLinesToFile_def split: list.splits option.splits)

lemma consistent_mainStep:
  assumes c: "consistent fl s" and e: "exited s = None"
  shows "consistent fl (mainStep env config fl cc s)"
proof -
  let ?s = "mainStep env config fl cc s"
  let ?F = "finalUrlSet (vars s)" and ?F' = "finalUrlSet (vars ?s)"
  let ?D = "failedDomains (vars s)" and ?D' = "failedDomains (vars ?s)"
  note fr = mainStep_frame [of env config fl cc s]
  from fr have w: "atWatcher ?s = atWatcher s" by simp
  from fr have Fs: "?F' = ?F \<or> (\<exists>u. ?F' = insertUrl ?F u)" by simp
  from fr have Ds: "?D' = ?D \<or> (\<exists>d. ?D' = ?D @ [d])" by simp
  from fr have fs: "files ?s = files s
        \<or> (?D \<noteq> [] \<and> files ?s = files s @ [(''failed_domains.txt'', ?D)])
        \<or> files ?s = files s @ [(outputFile fl, ?F)]" by simp
  from fr e have ex: "exited ?s = None \<or> exited ?s = Some 1
        \<or> (exited ?s = Some 0 \<and> atMain ?s = Return)" by auto
  from Fs have ext: "\<And>xs. prefix xs ?F \<Longrightarrow> prefix xs ?F'"
    by (auto simp: prefix_insertUrl)
  from Fs have tk: "\<And>p. p \<le> length ?F \<Longrightarrow> take p ?F' = take p ?F"
    by (auto simp: take_insertUrl)
  from Fs have len: "length ?F \<le> length ?F'"
    by (auto simp: length_insertUrl)
  from Ds have dext: "\<And>xs. prefix xs ?D \<Longrightarrow> prefix xs ?D'" by auto
  from Ds have dne: "?D \<noteq> [] \<Longrightarrow> ?D' \<noteq> []" by auto
  from c have c1: "distinct ?F" by (simp add: consistent_def)
  with Fs have 1: "distinct ?F'" by (auto simp: distinct_insertUrl)
  from c have c3: "list_all
           (\<lambda>(path, xs).
              (path = outputFile fl \<and> prefix xs ?F)
              \<or> (path = ''failed_domains.txt'' \<and> xs \<noteq> [] \<and> prefix xs ?D))
           (files s)" by (simp add: consistent_def)
  then have old: "list_all
           (\<lambda>(path, xs).
              (path = outputFile fl \<and> prefix xs ?F')
              \<or> (path = ''failed_domains.txt'' \<and> xs \<noteq> [] \<and> prefix xs ?D'))
           (files s)"
    by (auto simp: list_all_iff ext dext)
  from fs old have 3: "list_all
           (\<lambda>(path, xs).
              (path = outputFile fl \<and> prefix xs ?F')
              \<or> (path = ''failed_domains.txt'' \<and> xs \<noteq> [] \<and> prefix xs ?D'))
           (files ?s)"
    by (auto simp: ext dext)
  from fs have keep: "\<And>x. x \<in> set (files s) \<Longrightarrow> x \<in> set (files ?s)" by auto
  from c have c2: "case atWatcher s of
            RangeSet visited finalUrls \<Rightarrow>
              visited \<le> length ?F \<and> range_go finalUrls = take visited ?F
          | WriteUrls finalUrls \<Rightarrow> prefix (range_go finalUrls) ?F
          | WriteFailed \<Rightarrow> ?D \<noteq> [] \<and> (\<exists>xs. (outputFile fl, xs) \<in> set (files s))
          | LenFailed \<Rightarrow> (\<exists>xs. (outputFile fl, xs) \<in> set (files s))
          | Exit \<Rightarrow> (\<exists>xs. (outputFile fl, xs) \<in> set (files s))
          | Receive \<Rightarrow> True" by (simp add: consistent_def)
  have 2: "case atWatcher ?s of
            RangeSet visited finalUrls \<Rightarrow>
              visited \<le> length ?F' \<and> range_go finalUrls = take visited ?F'
          | WriteUrls finalUrls \<Rightarrow> prefix (range_go finalUrls) ?F'
          | WriteFailed \<Rightarrow> ?D' \<noteq> [] \<and> (\<exists>xs. (outputFile fl, xs) \<in> set (files ?s))
          | LenFailed \<Rightarrow> (\<exists>xs. (outputFile fl, xs) \<in> set (files ?s))
          | Exit \<Rightarrow> (\<exists>xs. (outputFile fl, xs) \<in> set (files ?s))
          | Receive \<Rightarrow> True"
    unfolding w using c2 len
    by (cases "atWatcher s") (auto simp: tk ext dne intro: keep)
  from ex have 4: "exited ?s = Some 0 \<longrightarrow> atMain ?s = Return \<or> atWatcher ?s = Exit" by auto
  from ex have 5: "exited ?s = Some 2 \<longrightarrow>
            writing ?s \<and> (\<exists>visited finalUrls. atWatcher ?s = RangeSet visited finalUrls)"
    by auto
  from 1 2 3 4 5 show ?thesis unfolding consistent_def by blast
qed

lemma consistent_watcherStep:
  assumes c: "consistent fl s" and e: "exited s = None"
  shows "consistent fl (watcherStep fl cc s)"
proof (cases "atWatcher s")
  case Receive
  with c e show ?thesis
    by (simp add: consistent_def watcherStep_def writing_def range_go_def)
next
  case (RangeSet visited finalUrls)
  with c e show ?thesis
    by (auto simp: consistent_def watcherStep_def writing_def range_go_append_go
          take_Suc_conv_app_nth)
next
  case (WriteUrls finalUrls)
  with c e show ?thesis
    by (auto simp: consistent_def watcherStep_def writing_def writeLinesToFile_def)
next
  case LenFailed
  with c e show ?thesis
    by (auto simp: consistent_def watcherStep_def writing_def)
next
  case WriteFailed
  with c e show ?thesis
    by (auto simp: consistent_def watcherStep_def writing_def writeLinesToFile_def)
next
  case Exit
  with c e show ?thesis
    by (auto simp: consistent_def watcherStep_def writing_def)
qed

lemma consistent_advance:
  assumes "consistent fl s"
  shows "consistent fl (advance env config fl cc s a)"
proof (cases "exited s = None")
  case False
  with assms show ?thesis by (simp add: advance_def)
next
  case True
  show ?thesis
  proof (cases a)
    case Driver
    with True consistent_mainStep [OF assms True] show ?thesis by (simp add: advance_def)
  next
    case Watcher
    with True consistent_watcherStep [OF assms True] show ?thesis by (simp add: advance_def)
  next
    case Signal
    with True assms show ?thesis
      by (cases "atWatcher s") (simp_all add: advance_def consistent_def writing_def)
  qed
qed

lemma consistent_run:
  "consistent fl s \<Longrightarrow> consistent fl (run env config fl cc schedule s)"
  unfolding run_def
  by (induction schedule arbitrary: s) (simp_all add: consistent_advance)

text \<open>
  So, whatever the schedule: a list that reaches the output path holds keys of the set
  only, none twice, in the order of their first insertion and without a gap; when the
  process ends with status 0 before \<open>main\<close> has reached its last line, the watcher has
  written the output path; and status 2 means that the watcher's \<open>range\<close> found the
  assignment of line 580 in progress.
\<close>

lemma watcher_under_every_schedule:
  assumes "s = run env config fl cc schedule (launch fl domains)"
  shows "(outputFile fl, xs) \<in> set (files s) \<and> outputFile fl \<noteq> ''failed_domains.txt''
           \<longrightarrow> prefix xs (finalUrlSet (vars s)) \<and> distinct xs"
    and "exited s = Some 0 \<and> atMain s \<noteq> Return
           \<longrightarrow> (\<exists>ys. (outputFile fl, ys) \<in> set (files s))"
    and "exited s = Some 2
           \<longrightarrow> (\<exists>msgs us u. atMain s = MapAssign msgs us u)"
proof -
  from consistent_run [OF consistent_launch, of fl env config cc schedule domains] assms
  have c: "consistent fl s" by simp
  then have d: "distinct (finalUrlSet (vars s))" by (simp add: consistent_def)
  from c have f: "list_all
           (\<lambda>(path, xs).
              (path = outputFile fl \<and> prefix xs (finalUrlSet (vars s)))
              \<or> (path = ''failed_domains.txt'' \<and> xs \<noteq> []
                  \<and> prefix xs (failedDomains (vars s))))
           (files s)" by (simp add: consistent_def)
  show "(outputFile fl, xs) \<in> set (files s) \<and> outputFile fl \<noteq> ''failed_domains.txt''
           \<longrightarrow> prefix xs (finalUrlSet (vars s)) \<and> distinct xs"
  proof (intro impI)
    assume a: "(outputFile fl, xs) \<in> set (files s) \<and> outputFile fl \<noteq> ''failed_domains.txt''"
    with f have p: "prefix xs (finalUrlSet (vars s))" by (auto simp: list_all_iff)
    then obtain zs where "finalUrlSet (vars s) = xs @ zs" by (auto simp: prefix_def)
    with d have "distinct xs" by simp
    with p show "prefix xs (finalUrlSet (vars s)) \<and> distinct xs" by simp
  qed
  from c have e0: "exited s = Some 0 \<longrightarrow> atMain s = Return \<or> atWatcher s = Exit"
    by (simp add: consistent_def)
  from c have w: "atWatcher s = Exit \<longrightarrow> (\<exists>ys. (outputFile fl, ys) \<in> set (files s))"
    by (auto simp: consistent_def)
  from e0 w show "exited s = Some 0 \<and> atMain s \<noteq> Return
           \<longrightarrow> (\<exists>ys. (outputFile fl, ys) \<in> set (files s))" by blast
  from c have "exited s = Some 2 \<longrightarrow> writing s" by (simp add: consistent_def)
  then show "exited s = Some 2 \<longrightarrow> (\<exists>msgs us u. atMain s = MapAssign msgs us u)"
    by (auto simp: writing_def split: place.splits)
qed

text \<open>
  Standard output under every schedule: the banner when the run is not silent; when it
  is silent, nothing until \<open>main\<close> has printed the URLs at line 619. The watcher prints
  nothing there.
\<close>

lemma stdout_mainStep:
  assumes "outputs s = (if silent fl
                        then (if atMain s = Return then map UrlLine (finalUrlSet (vars s)) else [])
                        else [Banner])"
  shows "outputs (mainStep env config fl cc s)
           = (if silent fl
              then (if atMain (mainStep env config fl cc s) = Return
                    then map UrlLine (finalUrlSet (vars (mainStep env config fl cc s))) else [])
              else [Banner])"
  using assms
  by (cases "atMain s")
     (auto simp: mainStep_def writeLinesToFile_def split: list.splits option.splits)

lemma stdout_under_every_schedule:
  assumes "s = run env config fl cc schedule (launch fl domains)"
  shows "outputs s = (if silent fl
                      then (if atMain s = Return then map UrlLine (finalUrlSet (vars s)) else [])
                      else [Banner])"
proof -
  have "outputs s0 = (if silent fl
                      then (if atMain s0 = Return then map UrlLine (finalUrlSet (vars s0))
                            else [])
                      else [Banner]) \<Longrightarrow>
        outputs (run env config fl cc schedule s0)
          = (if silent fl
             then (if atMain (run env config fl cc schedule s0) = Return
                   then map UrlLine (finalUrlSet (vars (run env config fl cc schedule s0)))
                   else [])
             else [Banner])" for s0
  proof (induction schedule arbitrary: s0)
    case Nil
    then show ?case by simp
  next
    case (Cons a schedule)
    have "outputs (advance env config fl cc s0 a)
            = (if silent fl
               then (if atMain (advance env config fl cc s0 a) = Return
                     then map UrlLine (finalUrlSet (vars (advance env config fl cc s0 a)))
                     else [])
               else [Banner])"
    proof (cases "exited s0 = None")
      case False
      with Cons.prems show ?thesis by (simp add: advance_def)
    next
      case True
      show ?thesis
      proof (cases a)
        case Driver
        with True stdout_mainStep [OF Cons.prems, of env config cc] show ?thesis
          by (simp add: advance_def)
      next
        case Watcher
        with True Cons.prems show ?thesis
          by (cases "atWatcher s0")
             (auto simp: advance_def watcherStep_def writeLinesToFile_def)
      next
        case Signal
        with True Cons.prems show ?thesis by (simp add: advance_def)
      qed
    qed
    from Cons.IH [OF this] show ?case by simp
  qed
  from this [of "launch fl domains"] assms show ?thesis by simp
qed

subsection \<open>Claim C8\<close>

lemma run_duringAssignment:
  "run exampleEnv noKeys exampleFlags anyFile duringAssignment (launch exampleFlags exampleLines)
     = assignmentEnd"
  by code_simp

lemma run_duringSleep:
  "run exampleEnv noKeys exampleFlags anyFile duringSleep (launch exampleFlags exampleLines)
     = sleepEnd"
  by code_simp

text \<open>
  C8 at a failing input, the end-to-end example of the specification with the interrupt
  signal arriving while \<open>main\<close> merges the URLs of \<open>example.com\<close>: \<open>a.com/x\<close> is in the
  set and the assignment of line 580 for \<open>a.com/y\<close> has begun. The watcher receives the
  signal and starts \<open>for u := range finalUrlSet\<close> at line 469 with no regard to \<open>main\<close>;
  the first step of that loop finds the map being written and the process stops with
  status 2. Nothing has been written: not the output file, which C8 (and the section on
  graceful shutdown of the README) says holds the URLs merged so far, here \<open>a.com/x\<close>.

  For comparison, the same run with the signal arriving during the delay that follows
  \<open>example.com\<close>: the watcher writes both URLs to the output file and ends the process
  with status 0, as C8 says.
\<close>

theorem C8_interrupt_during_merge:
  "atMain (run exampleEnv noKeys exampleFlags anyFile duringAssignment
             (launch exampleFlags exampleLines))
     = MapAssign [] [] ''a.com/y''
   \<and> finalUrlSet (vars (run exampleEnv noKeys exampleFlags anyFile duringAssignment
                          (launch exampleFlags exampleLines)))
     = [''a.com/x'']
   \<and> atWatcher (run exampleEnv noKeys exampleFlags anyFile duringAssignment
                   (launch exampleFlags exampleLines))
     = RangeSet 0 None
   \<and> exited (run exampleEnv noKeys exampleFlags anyFile duringAssignment
                (launch exampleFlags exampleLines))
     = Some 2
   \<and> files (run exampleEnv noKeys exampleFlags anyFile duringAssignment
               (launch exampleFlags exampleLines))
     = []
   \<and> exited (run exampleEnv noKeys exampleFlags anyFile duringSleep
                (launch exampleFlags exampleLines))
     = Some 0
   \<and> files (run exampleEnv noKeys exampleFlags anyFile duringSleep
               (launch exampleFlags exampleLines))
     = [(''endpoints.txt'', [''a.com/x'', ''a.com/y''])]"
  by (simp add: run_duringAssignment run_duringSleep assignmentEnd_def sleepEnd_def)

end
